theory Spec2Isabelle
  imports Complex_Main
begin

section \<open>Arrays\<close>

text \<open>
  The notebook works on two-dimensional numpy arrays of floating-point numbers. An array
  is modelled as the list of its rows and a number as a real, so the arithmetic is exact:
  rounding, overflow and the values inf and nan of the floating-point type are outside
  the model, and the constants \<open>.99\<close> and \<open>1e-4\<close> are the rationals they denote.
  A column vector (shape \<open>(n,1)\<close>) is a list of one-element rows. It is the model of the
  runs in which every value stays finite; a second model further down keeps overflow,
  the infinities and nan.

  A list of rows forgets the column count of an array with no rows, so the transpose and
  the matrix product take the column count that numpy reads from the shape.
\<close>

type_synonym vec = "real list"
type_synonym mat = "real list list"

datatype error = LinAlgError | ValueError | IndexError

definition dot :: "vec \<Rightarrow> vec \<Rightarrow> real" where
  "dot u v = sum_list (map2 (*) u v)"

definition col :: "nat \<Rightarrow> mat \<Rightarrow> vec" where
  "col j M = map (\<lambda>r. r ! j) M"

text \<open>\<open>M.T\<close> for \<open>M\<close> of shape \<open>(_, k)\<close>.\<close>

definition transpose_m :: "nat \<Rightarrow> mat \<Rightarrow> mat" where
  "transpose_m k M = map (\<lambda>j. col j M) [0..<k]"

text \<open>\<open>A @ B\<close> for \<open>B\<close> of shape \<open>(_, q)\<close>.\<close>

definition matmul :: "nat \<Rightarrow> mat \<Rightarrow> mat \<Rightarrow> mat" where
  "matmul q A B = map (\<lambda>r. map (\<lambda>j. dot r (col j B)) [0..<q]) A"

text \<open>Element-wise operations on arrays of the same shape, and with a scalar.\<close>

definition madd :: "mat \<Rightarrow> mat \<Rightarrow> mat" where
  "madd A B = map2 (map2 (+)) A B"

definition msub :: "mat \<Rightarrow> mat \<Rightarrow> mat" where
  "msub A B = map2 (map2 (-)) A B"

definition emul :: "mat \<Rightarrow> mat \<Rightarrow> mat" where
  "emul A B = map2 (map2 (*)) A B"

definition mscale :: "real \<Rightarrow> mat \<Rightarrow> mat" where
  "mscale c A = map (map ((*) c)) A"

definition mneg :: "mat \<Rightarrow> mat" where
  "mneg A = map (map uminus) A"

definition mexp :: "mat \<Rightarrow> mat" where
  "mexp A = map (map exp) A"

definition mlog :: "mat \<Rightarrow> mat" where
  "mlog A = map (map ln) A"

definition mabs :: "mat \<Rightarrow> mat" where
  "mabs A = map (map abs) A"

definition msub_scalar :: "mat \<Rightarrow> real \<Rightarrow> mat" where
  "msub_scalar A c = map (map (\<lambda>x. x - c)) A"

definition ones :: "nat \<Rightarrow> nat \<Rightarrow> mat" where
  "ones n k = replicate n (replicate k 1)"

text \<open>\<open>np.concatenate([A, B], axis=1)\<close> and the column slice \<open>M[:, a:b]\<close>.\<close>

definition hcat :: "mat \<Rightarrow> mat \<Rightarrow> mat" where
  "hcat A B = map2 (@) A B"

definition cols :: "nat \<Rightarrow> nat \<Rightarrow> mat \<Rightarrow> mat" where
  "cols a b M = map (\<lambda>r. take (b - a) (drop a r)) M"

text \<open>\<open>np.max\<close> raises on an array without elements.\<close>

definition amax :: "mat \<Rightarrow> error + real" where
  "amax A = (case concat A of [] \<Rightarrow> Inl ValueError | x # xs \<Rightarrow> Inr (fold max xs x))"

text \<open>
  \<open>np.argwhere(v > 0)[:,0]\<close> for a column vector \<open>v\<close>: the indices of the rows whose
  entry is positive, in order; \<open>M[vloc]\<close> selects those rows.
\<close>

definition argwhere_pos :: "mat \<Rightarrow> nat list" where
  "argwhere_pos v = filter (\<lambda>i. case v ! i of [w] \<Rightarrow> w > 0 | _ \<Rightarrow> False) [0..<length v]"

definition rows_at :: "nat list \<Rightarrow> mat \<Rightarrow> mat" where
  "rows_at vloc M = map (\<lambda>i. M ! i) vloc"

text \<open>
  The test \<open>vb[0] > c\<close> of a column vector: indexing an array without rows raises, and
  the truth value of a row of several elements is an error.
\<close>

definition first_gt :: "mat \<Rightarrow> real \<Rightarrow> error + bool" where
  "first_gt vb c = (case vb of [] \<Rightarrow> Inl IndexError
                    | [x] # _ \<Rightarrow> Inr (x > c)
                    | _ \<Rightarrow> Inl ValueError)"

section \<open>Matrix inverse\<close>

text \<open>
  \<open>np.linalg.inv\<close> returns the inverse of a square matrix and raises \<open>LinAlgError\<close>
  when the matrix is not square or when the elimination finds no non-zero pivot. In
  exact arithmetic it is Gauss-Jordan elimination on the matrix extended by the
  identity: for each column in turn a row with a non-zero entry in that column is
  chosen among the rows not used yet, scaled to make the entry one, and subtracted from
  every other row. Over the reals no pivot is found exactly when the matrix is
  singular; the floating-point routine rounds, and can find a small non-zero pivot in a
  singular matrix and return numbers. What is proved below of a matrix that has an
  inverse does not depend on this.
\<close>

definition vadd :: "vec \<Rightarrow> vec \<Rightarrow> vec" where
  "vadd u v = map2 (+) u v"

definition smul :: "real \<Rightarrow> vec \<Rightarrow> vec" where
  "smul c v = map ((*) c) v"

definition unit_vec :: "nat \<Rightarrow> nat \<Rightarrow> vec" where
  "unit_vec n i = map (\<lambda>j. if j = i then 1 else 0) [0..<n]"

definition identity :: "nat \<Rightarrow> mat" where
  "identity n = map (unit_vec n) [0..<n]"

fun find_pivot :: "nat \<Rightarrow> vec list \<Rightarrow> (vec \<times> vec list) option" where
  "find_pivot j [] = None"
| "find_pivot j (r # rs) =
     (if r ! j \<noteq> 0 then Some (r, rs)
      else (case find_pivot j rs of None \<Rightarrow> None | Some (p, rest) \<Rightarrow> Some (p, r # rest)))"

definition eliminate :: "nat \<Rightarrow> vec \<Rightarrow> vec \<Rightarrow> vec" where
  "eliminate j p r = vadd r (smul (- (r ! j)) p)"

fun gauss_jordan :: "nat \<Rightarrow> nat \<Rightarrow> vec list \<Rightarrow> vec list \<Rightarrow> vec list option" where
  "gauss_jordan 0 j done todo = Some done"
| "gauss_jordan (Suc k) j done todo =
     (case find_pivot j todo of
        None \<Rightarrow> None
      | Some (r, rest) \<Rightarrow>
          (let p = smul (1 / r ! j) r
           in gauss_jordan k (Suc j) (map (eliminate j p) done @ [p]) (map (eliminate j p) rest)))"

definition square :: "mat \<Rightarrow> bool" where
  "square A = list_all (\<lambda>r. length r = length A) A"

definition linalg_inv :: "mat \<Rightarrow> error + mat" where
  "linalg_inv A =
     (if \<not> square A then Inl LinAlgError
      else (case gauss_jordan (length A) 0 [] (map2 (@) A (identity (length A))) of
              None \<Rightarrow> Inl LinAlgError
            | Some rows \<Rightarrow> Inr (map (drop (length A)) rows)))"

section \<open>Linear IV\<close>

text \<open>
  \<open>mdata\<close> is the table of one manager: each row holds the identifier, an unused column,
  the weight, five characteristics, the log market value and its instrument.
\<close>

definition vrweight :: "mat \<Rightarrow> mat" where
  "vrweight mdata = cols 2 3 mdata"

definition vloc :: "mat \<Rightarrow> nat list" where
  "vloc mdata = argwhere_pos (vrweight mdata)"

definition mdata0 :: "mat \<Rightarrow> mat" where
  "mdata0 mdata = rows_at (vloc mdata) mdata"

definition vLNrweight :: "mat \<Rightarrow> mat" where
  "vLNrweight mdata = mlog (rows_at (vloc mdata) (vrweight mdata))"

text \<open>The design and the instrument matrix of a table, and the reduced design.\<close>

definition design_X :: "mat \<Rightarrow> mat" where
  "design_X m = hcat (hcat (cols 8 9 m) (cols 3 8 m)) (ones (length (cols 8 9 m)) 1)"

definition design_Z :: "mat \<Rightarrow> mat" where
  "design_Z m = hcat (hcat (cols 9 10 m) (cols 3 8 m)) (ones (length (cols 8 9 m)) 1)"

definition design_X_reduced :: "mat \<Rightarrow> mat" where
  "design_X_reduced m = hcat (cols 3 8 m) (ones (length (cols 8 9 m)) 1)"

definition vb_linearIV_unconstrained :: "mat \<Rightarrow> error + mat" where
  "vb_linearIV_unconstrained mdata =
     (let mX = design_X (mdata0 mdata);
          mZ = design_Z (mdata0 mdata);
          dT = length (cols 8 9 (mdata0 mdata))
      in case linalg_inv (matmul 7 (transpose_m 7 mZ) mX) of
           Inl e \<Rightarrow> Inl e
         | Inr M \<Rightarrow> Inr (matmul 1 (matmul dT M (transpose_m 7 mZ)) (vLNrweight mdata)))"

definition vb_linearIV_constrained :: "mat \<Rightarrow> error + mat" where
  "vb_linearIV_constrained mdata =
     (let mX = design_X_reduced (mdata0 mdata);
          vLNme = cols 8 9 (mdata0 mdata);
          dT = length vLNme
      in case linalg_inv (matmul 6 (transpose_m 6 mX) mX) of
           Inl e \<Rightarrow> Inl e
         | Inr M \<Rightarrow>
             Inr ([[99/100]] @
                  matmul 1 (matmul dT M (transpose_m 6 mX))
                    (msub (vLNrweight mdata) (mscale (99/100) vLNme))))"

definition vb_linearIV :: "mat \<Rightarrow> error + mat" where
  "vb_linearIV mdata =
     (case vb_linearIV_unconstrained mdata of
        Inl e \<Rightarrow> Inl e
      | Inr vb \<Rightarrow>
          (case first_gt vb (99/100) of
             Inl e \<Rightarrow> Inl e
           | Inr True \<Rightarrow> vb_linearIV_constrained mdata
           | Inr False \<Rightarrow> Inr vb))"

section \<open>Non-linear IV\<close>

text \<open>
  The body of the first loop adds to the current vector the increment
  \<open>np.linalg.inv(mZ_tilde.T @ mX) @ mZ.T @ (vlatent-1)\<close>, computed from the design
  \<open>mX\<close>, the instruments \<open>mZ\<close>, the weights and the current vector. The product is
  evaluated from the left.
\<close>

definition increment_unconstrained :: "nat \<Rightarrow> mat \<Rightarrow> mat \<Rightarrow> mat \<Rightarrow> mat \<Rightarrow> error + mat" where
  "increment_unconstrained dN mX mZ w vb =
     (let vlatent = emul w (mexp (matmul 1 (mneg mX) vb));
          mZ_tilde = emul (matmul dN vlatent (ones 1 dN)) mZ
      in case linalg_inv (matmul dN (transpose_m dN mZ_tilde) mX) of
           Inl e \<Rightarrow> Inl e
         | Inr M \<Rightarrow>
             Inr (matmul 1 (matmul (length mZ) M (transpose_m dN mZ)) (msub_scalar vlatent 1)))"

definition update_unconstrained :: "nat \<Rightarrow> mat \<Rightarrow> mat \<Rightarrow> mat \<Rightarrow> mat \<Rightarrow> error + mat" where
  "update_unconstrained dN mX mZ w vb =
     (case increment_unconstrained dN mX mZ w vb of
        Inl e \<Rightarrow> Inl e
      | Inr delta \<Rightarrow> Inr (madd vb delta))"

text \<open>The body of the second loop, with the first coefficient fixed.\<close>

definition increment_constrained :: "nat \<Rightarrow> mat \<Rightarrow> mat \<Rightarrow> mat \<Rightarrow> mat \<Rightarrow> error + mat" where
  "increment_constrained dN mX vLNme w vb =
     (let vlatent = emul w (mexp (msub (mscale (- (99/100)) vLNme) (matmul 1 mX vb)));
          mX_tilde = emul (matmul dN vlatent (ones 1 dN)) mX
      in case linalg_inv (matmul dN (transpose_m dN mX_tilde) mX) of
           Inl e \<Rightarrow> Inl e
         | Inr M \<Rightarrow>
             Inr (matmul 1 (matmul (length mX) M (transpose_m dN mX)) (msub_scalar vlatent 1)))"

definition update_constrained :: "nat \<Rightarrow> mat \<Rightarrow> mat \<Rightarrow> mat \<Rightarrow> mat \<Rightarrow> error + mat" where
  "update_constrained dN mX vLNme w vb =
     (case increment_constrained dN mX vLNme w vb of
        Inl e \<Rightarrow> Inl e
      | Inr delta \<Rightarrow> Inr (madd vb delta))"

text \<open>
  The two \<open>while dchange > 1e-4\<close> loops have the same shape and differ in the update
  only. The loop has no bound on the number of passes: a run that never leaves it is
  the value \<open>None\<close>.
\<close>

partial_function (option) iterate :: "(mat \<Rightarrow> error + mat) \<Rightarrow> real \<Rightarrow> mat \<Rightarrow> (error + mat) option" where
  "iterate update dchange vb =
     (if dchange > 1/10000 then
        (case update vb of
           Inl e \<Rightarrow> Some (Inl e)
         | Inr vb_new \<Rightarrow>
             (case amax (mabs (msub vb vb_new)) of
                Inl e \<Rightarrow> Some (Inl e)
              | Inr d \<Rightarrow> iterate update d vb_new))
      else Some (Inr vb))"

definition nonlinear_unconstrained :: "mat \<Rightarrow> mat \<Rightarrow> (error + mat) option" where
  "nonlinear_unconstrained mdata vb_lin =
     iterate (update_unconstrained 7 (design_X mdata) (design_Z mdata) (vrweight mdata)) 1 vb_lin"

definition nonlinear_constrained :: "mat \<Rightarrow> mat \<Rightarrow> (error + mat) option" where
  "nonlinear_constrained mdata vb_lin =
     (case iterate (update_constrained 6 (design_X_reduced mdata) (cols 8 9 mdata) (vrweight mdata))
             1 (drop 1 vb_lin) of
        None \<Rightarrow> None
      | Some (Inl e) \<Rightarrow> Some (Inl e)
      | Some (Inr vb) \<Rightarrow> Some (Inr ([[99/100]] @ vb)))"

text \<open>The fourth cell: \<open>vb_lin\<close> is the value of \<open>vb_linearIV\<close> when the cell starts.\<close>

definition vb_nonlinearIV :: "mat \<Rightarrow> mat \<Rightarrow> (error + mat) option" where
  "vb_nonlinearIV mdata vb_lin =
     (case nonlinear_unconstrained mdata vb_lin of
        None \<Rightarrow> None
      | Some (Inl e) \<Rightarrow> Some (Inl e)
      | Some (Inr vb) \<Rightarrow>
          (case first_gt vb (99/100) of
             Inl e \<Rightarrow> Some (Inl e)
           | Inr True \<Rightarrow> nonlinear_constrained mdata vb_lin
           | Inr False \<Rightarrow> Some (Inr vb)))"

text \<open>The third and the fourth cell in sequence, returning both coefficient vectors.\<close>

definition estimate :: "mat \<Rightarrow> (error + mat \<times> mat) option" where
  "estimate mdata =
     (case vb_linearIV mdata of
        Inl e \<Rightarrow> Some (Inl e)
      | Inr vb_lin \<Rightarrow>
          (case vb_nonlinearIV mdata vb_lin of
             None \<Rightarrow> None
           | Some (Inl e) \<Rightarrow> Some (Inl e)
           | Some (Inr vb_nl) \<Rightarrow> Some (Inr (vb_lin, vb_nl))))"

section \<open>The fourth cell over a store of arrays\<close>

text \<open>
  A name of the notebook refers to an array object, and the assignment
  \<open>vb_nonlinearIV = vb_linearIV\<close> makes a second name refer to the same object;
  \<open>vb_linearIV[1:]\<close> is a view that shares the object's buffer from row 1 on. The store
  is the list of the buffers allocated so far, and a reference is the index of a buffer
  together with the row at which the view starts.
\<close>

record array_ref =
  buffer :: nat
  start :: nat

definition deref :: "mat list \<Rightarrow> array_ref \<Rightarrow> mat" where
  "deref h r = drop (start r) (h ! buffer r)"

text \<open>
  The state of the cell: the store and the names \<open>vb_linearIV\<close>, \<open>vb_nonlinearIV\<close> and
  \<open>dchange\<close>. The arrays that the cell only reads (\<open>mdata\<close>, its slices, the design
  matrices) and the names that are local to one pass of a loop stay values.
\<close>

record env =
  arrays :: "mat list"
  var_vb_linearIV :: array_ref
  var_vb_nonlinearIV :: array_ref
  var_dchange :: real

text \<open>
  One pass of a loop. The sum \<open>vb_nonlinearIV + ...\<close> is a new array, to which
  \<open>vb_nonlinearIV_new\<close> refers; \<open>dchange\<close> is computed from the two arrays, and then
  \<open>vb_nonlinearIV\<close> is made to refer to the new array. The cell holds no assignment to
  an element or to a slice and no augmented assignment. An error is returned with the
  state in which it was raised.
\<close>

definition pass :: "(mat \<Rightarrow> error + mat) \<Rightarrow> env \<Rightarrow> (error \<times> env) + env" where
  "pass update s =
     (case update (deref (arrays s) (var_vb_nonlinearIV s)) of
        Inl e \<Rightarrow> Inl (e, s)
      | Inr vb_new \<Rightarrow>
          (let h = arrays s @ [vb_new];
               new = \<lparr>buffer = length (arrays s), start = 0\<rparr>
           in case amax (mabs (msub (deref h (var_vb_nonlinearIV s)) (deref h new))) of
                Inl e \<Rightarrow> Inl (e, s\<lparr>arrays := h\<rparr>)
              | Inr d \<Rightarrow> Inr (s\<lparr>arrays := h, var_dchange := d, var_vb_nonlinearIV := new\<rparr>)))"

partial_function (option) run_loop :: "(mat \<Rightarrow> error + mat) \<Rightarrow> env \<Rightarrow> ((error \<times> env) + env) option" where
  "run_loop update s =
     (if var_dchange s > 1/10000 then
        (case pass update s of
           Inl x \<Rightarrow> Some (Inl x)
         | Inr s' \<Rightarrow> run_loop update s')
      else Some (Inr s))"

text \<open>
  The fourth cell, started with \<open>vb_linearIV\<close> referring to \<open>lin\<close> in the store \<open>h\<close>:
  \<open>vb_nonlinearIV = vb_linearIV\<close> copies the reference, the second loop starts from the
  view \<open>vb_linearIV[1:]\<close>, and \<open>np.concatenate\<close> allocates the result.
\<close>

definition cell_nonlinearIV :: "mat \<Rightarrow> mat list \<Rightarrow> array_ref \<Rightarrow> ((error \<times> env) + env) option" where
  "cell_nonlinearIV mdata h lin =
     (case run_loop (update_unconstrained 7 (design_X mdata) (design_Z mdata) (vrweight mdata))
             \<lparr>arrays = h, var_vb_linearIV = lin, var_vb_nonlinearIV = lin, var_dchange = 1\<rparr> of
        None \<Rightarrow> None
      | Some (Inl x) \<Rightarrow> Some (Inl x)
      | Some (Inr s) \<Rightarrow>
          (case first_gt (deref (arrays s) (var_vb_nonlinearIV s)) (99/100) of
             Inl e \<Rightarrow> Some (Inl (e, s))
           | Inr False \<Rightarrow> Some (Inr s)
           | Inr True \<Rightarrow>
               (case run_loop (update_constrained 6 (design_X_reduced mdata) (cols 8 9 mdata) (vrweight mdata))
                       (s\<lparr>var_vb_nonlinearIV := \<lparr>buffer = buffer (var_vb_linearIV s),
                                                 start = start (var_vb_linearIV s) + 1\<rparr>,
                          var_dchange := 1\<rparr>) of
                  None \<Rightarrow> None
                | Some (Inl x) \<Rightarrow> Some (Inl x)
                | Some (Inr s') \<Rightarrow>
                    Some (Inr (s'\<lparr>arrays := arrays s' @ [[[99/100]] @ deref (arrays s') (var_vb_nonlinearIV s')],
                                  var_vb_nonlinearIV := \<lparr>buffer = length (arrays s'), start = 0\<rparr>\<rparr>)))))"

text \<open>The third cell leaves \<open>vb_linearIV\<close> referring to the one array it has allocated.\<close>

definition cell_linearIV :: "mat \<Rightarrow> error + mat list \<times> array_ref" where
  "cell_linearIV mdata =
     (case vb_linearIV mdata of
        Inl e \<Rightarrow> Inl e
      | Inr vb \<Rightarrow> Inr ([vb], \<lparr>buffer = 0, start = 0\<rparr>))"

section \<open>Shapes\<close>

text \<open>An array of shape \<open>(n, q)\<close>, and a row vector times a matrix.\<close>

definition shape :: "nat \<Rightarrow> nat \<Rightarrow> mat \<Rightarrow> bool" where
  "shape n q A \<longleftrightarrow> length A = n \<and> (\<forall>r\<in>set A. length r = q)"

definition vec_mat :: "nat \<Rightarrow> vec \<Rightarrow> mat \<Rightarrow> vec" where
  "vec_mat q b A = map (\<lambda>c. dot b (col c A)) [0..<q]"

text \<open>A coefficient vector as a column, and a matrix times a vector.\<close>

definition column :: "vec \<Rightarrow> mat" where
  "column v = map (\<lambda>x. [x]) v"

definition mat_vec :: "mat \<Rightarrow> vec \<Rightarrow> vec" where
  "mat_vec A v = map (\<lambda>r. dot r v) A"

section \<open>The estimators as the specification describes them\<close>

text \<open>
  An observation row: the weight of a security in the portfolio, its log market value,
  the instrument for it, and its characteristics. The table holds them in the columns
  2, 8, 9 and 3 to 7.
\<close>

record observation =
  weight :: real
  log_market_value :: real
  log_market_value_instrument :: real
  characteristics :: "real list"

definition observation_of :: "vec \<Rightarrow> observation" where
  "observation_of r =
     \<lparr>weight = r ! 2, log_market_value = r ! 8, log_market_value_instrument = r ! 9,
      characteristics = [r ! 3, r ! 4, r ! 5, r ! 6, r ! 7]\<rparr>"

text \<open>
  The rows of \<open>X = [log_market_value | characteristics | 1]\<close>, of
  \<open>Z = [log_market_value_instrument | characteristics | 1]\<close> and of
  \<open>X' = [characteristics | 1]\<close>.
\<close>

definition x_row :: "observation \<Rightarrow> vec" where
  "x_row ob = log_market_value ob # characteristics ob @ [1]"

definition z_row :: "observation \<Rightarrow> vec" where
  "z_row ob = log_market_value_instrument ob # characteristics ob @ [1]"

definition x_reduced_row :: "observation \<Rightarrow> vec" where
  "x_reduced_row ob = characteristics ob @ [1]"

definition retained :: "observation list \<Rightarrow> observation list" where
  "retained obs = filter (\<lambda>ob. weight ob > 0) obs"

definition log_weights :: "observation list \<Rightarrow> vec" where
  "log_weights obs = map (\<lambda>ob. ln (weight ob)) obs"

text \<open>
  The latent values \<open>weight \<odot> exp(-X \<beta>)\<close>, the scaled instruments
  \<open>diag(latent) Z\<close>, and the Gauss-Newton update
  \<open>\<beta> + (Z\<^sub>t\<^sup>T X)\<^sup>-\<^sup>1 Z\<^sup>T (latent - 1)\<close> over all observations.
\<close>

definition latent :: "observation list \<Rightarrow> vec \<Rightarrow> vec" where
  "latent obs beta = map (\<lambda>ob. weight ob * exp (- dot (x_row ob) beta)) obs"

definition scale_rows :: "vec \<Rightarrow> mat \<Rightarrow> mat" where
  "scale_rows l Z = map2 smul l Z"

definition cross_latent :: "observation list \<Rightarrow> vec \<Rightarrow> mat" where
  "cross_latent obs beta =
     matmul 7 (transpose_m 7 (scale_rows (latent obs beta) (map z_row obs))) (map x_row obs)"

definition gauss_newton_step :: "observation list \<Rightarrow> vec \<Rightarrow> error + vec" where
  "gauss_newton_step obs beta =
     (case linalg_inv (cross_latent obs beta) of
        Inl e \<Rightarrow> Inl e
      | Inr M \<Rightarrow> Inr (mat_vec M (mat_vec (transpose_m 7 (map z_row obs))
                                        (map (\<lambda>x. x - 1) (latent obs beta)))))"

definition gauss_newton :: "observation list \<Rightarrow> vec \<Rightarrow> error + vec" where
  "gauss_newton obs beta =
     (case gauss_newton_step obs beta of
        Inl e \<Rightarrow> Inl e
      | Inr delta \<Rightarrow> Inr (vadd beta delta))"

text \<open>
  The same with the market-value coefficient fixed at 0.99: the latent values
  \<open>weight \<odot> exp(-0.99 log_market_value - X' \<beta>)\<close> and the update over \<open>X'\<close>.
\<close>

definition latent_fixed :: "observation list \<Rightarrow> vec \<Rightarrow> vec" where
  "latent_fixed obs beta =
     map (\<lambda>ob. weight ob * exp (- (99/100) * log_market_value ob - dot (x_reduced_row ob) beta)) obs"

definition cross_latent_fixed :: "observation list \<Rightarrow> vec \<Rightarrow> mat" where
  "cross_latent_fixed obs beta =
     matmul 6 (transpose_m 6 (scale_rows (latent_fixed obs beta) (map x_reduced_row obs)))
       (map x_reduced_row obs)"

definition gauss_newton_fixed_step :: "observation list \<Rightarrow> vec \<Rightarrow> error + vec" where
  "gauss_newton_fixed_step obs beta =
     (case linalg_inv (cross_latent_fixed obs beta) of
        Inl e \<Rightarrow> Inl e
      | Inr M \<Rightarrow> Inr (mat_vec M (mat_vec (transpose_m 6 (map x_reduced_row obs))
                                        (map (\<lambda>x. x - 1) (latent_fixed obs beta)))))"

definition gauss_newton_fixed :: "observation list \<Rightarrow> vec \<Rightarrow> error + vec" where
  "gauss_newton_fixed obs beta =
     (case gauss_newton_fixed_step obs beta of
        Inl e \<Rightarrow> Inl e
      | Inr delta \<Rightarrow> Inr (vadd beta delta))"

text \<open>The largest absolute difference between the coefficients of two vectors.\<close>

definition max_change :: "vec \<Rightarrow> vec \<Rightarrow> real" where
  "max_change b b' = Max (set (map2 (\<lambda>x y. \<bar>x - y\<bar>) b b'))"

text \<open>
  A run of \<open>n + 1\<close> updates from \<open>b 0\<close>: every update succeeds, the first \<open>n\<close> change
  some coefficient by more than \<open>1e-4\<close>, and the last changes none by more.
\<close>

definition run_of :: "(vec \<Rightarrow> error + vec) \<Rightarrow> (nat \<Rightarrow> vec) \<Rightarrow> nat \<Rightarrow> bool" where
  "run_of update b n \<longleftrightarrow>
     (\<forall>j\<le>n. update (b j) = Inr (b (Suc j))) \<and>
     (\<forall>j<n. max_change (b j) (b (Suc j)) > 1/10000) \<and>
     max_change (b n) (b (Suc n)) \<le> 1/10000"

text \<open>A table with the ten columns of the data set in every row.\<close>

definition table :: "mat \<Rightarrow> bool" where
  "table mdata \<longleftrightarrow> (\<forall>r\<in>set mdata. length r = 10)"

text \<open>
  The two-stage least-squares solve \<open>(Z\<^sup>T X)\<^sup>-\<^sup>1 Z\<^sup>T y\<close> on the retained rows, the
  least-squares solve on \<open>X'\<close> against \<open>y - 0.99 log_market_value\<close> with 0.99
  prepended, and the choice between them.
\<close>

definition cross_linear :: "observation list \<Rightarrow> mat" where
  "cross_linear obs =
     matmul 7 (transpose_m 7 (map z_row (retained obs))) (map x_row (retained obs))"

definition linear_iv_unconstrained :: "observation list \<Rightarrow> error + vec" where
  "linear_iv_unconstrained obs =
     (case linalg_inv (cross_linear obs) of
        Inl e \<Rightarrow> Inl e
      | Inr M \<Rightarrow> Inr (mat_vec M (mat_vec (transpose_m 7 (map z_row (retained obs)))
                                        (log_weights (retained obs)))))"

definition adjusted_log_weights :: "observation list \<Rightarrow> vec" where
  "adjusted_log_weights obs = map (\<lambda>ob. ln (weight ob) - 99/100 * log_market_value ob) obs"

definition cross_reduced :: "observation list \<Rightarrow> mat" where
  "cross_reduced obs =
     matmul 6 (transpose_m 6 (map x_reduced_row (retained obs))) (map x_reduced_row (retained obs))"

definition linear_iv_constrained :: "observation list \<Rightarrow> error + vec" where
  "linear_iv_constrained obs =
     (case linalg_inv (cross_reduced obs) of
        Inl e \<Rightarrow> Inl e
      | Inr M \<Rightarrow> Inr (99/100 # mat_vec M (mat_vec (transpose_m 6 (map x_reduced_row (retained obs)))
                                                 (adjusted_log_weights (retained obs)))))"

text \<open>A square matrix without an inverse.\<close>

definition singular :: "mat \<Rightarrow> bool" where
  "singular A \<longleftrightarrow>
     \<not> (\<exists>C. shape (length A) (length A) C \<and> matmul (length A) C A = identity (length A))"

text \<open>
  A run that ends in an error: \<open>n\<close> updates from \<open>b 0\<close> succeed, each changing some
  coefficient by more than \<open>1e-4\<close>, and the next update raises \<open>e\<close>.
\<close>

definition raises_after :: "(vec \<Rightarrow> error + vec) \<Rightarrow> (nat \<Rightarrow> vec) \<Rightarrow> nat \<Rightarrow> error \<Rightarrow> bool" where
  "raises_after update b n e \<longleftrightarrow>
     (\<forall>j<n. update (b j) = Inr (b (Suc j)) \<and> max_change (b j) (b (Suc j)) > 1/10000) \<and>
     update (b n) = Inl e"

section \<open>States of the store\<close>

text \<open>
  The state in which a run of the cell ended, the array to which \<open>vb_nonlinearIV\<close>
  refers, and the result of a run as a value.
\<close>

definition final :: "(error \<times> env) + env \<Rightarrow> env" where
  "final out = (case out of Inl (e, s) \<Rightarrow> s | Inr s \<Rightarrow> s)"

definition bound_value :: "env \<Rightarrow> mat" where
  "bound_value s = deref (arrays s) (var_vb_nonlinearIV s)"

definition outcome :: "(error \<times> env) + env \<Rightarrow> error + mat" where
  "outcome out = (case out of Inl (e, s) \<Rightarrow> Inl e | Inr s \<Rightarrow> Inr (bound_value s))"

text \<open>
  The references of a state point into the store; a later state extends an earlier one
  when \<open>vb_linearIV\<close> refers to the same place and the arrays of the earlier state are
  still there, unchanged.
\<close>

definition allocated :: "env \<Rightarrow> bool" where
  "allocated s \<longleftrightarrow> buffer (var_vb_linearIV s) < length (arrays s) \<and>
                  buffer (var_vb_nonlinearIV s) < length (arrays s)"

definition extends :: "env \<Rightarrow> env \<Rightarrow> bool" where
  "extends s s' \<longleftrightarrow> var_vb_linearIV s' = var_vb_linearIV s \<and>
                  take (length (arrays s)) (arrays s') = arrays s \<and>
                  length (arrays s) \<le> length (arrays s')"

section \<open>The estimators over floating-point values\<close>

text \<open>
  The arrays of the notebook hold floating-point numbers, and none of its operations
  raises on an overflow or on an invalid operation: \<open>np.exp\<close> of a large argument is
  \<open>inf\<close>, \<open>0 * inf\<close> is \<open>nan\<close>, and a comparison with \<open>nan\<close> is false. The second
  model keeps these values. A number is a finite real, one of the two infinities, or
  nan. The result of an operation on finite numbers is the exact result, replaced by an
  infinity when its magnitude reaches \<open>2^1024\<close> and by zero when it does not exceed
  \<open>2^-1075\<close>; the rounding of the finite results and the sign of zero are left out.
\<close>

datatype ieee = Fin real | PInf | NInf | NaN

type_synonym fvec = "ieee list"
type_synonym fmat = "ieee list list"

definition fl :: "real \<Rightarrow> ieee" where
  "fl r = (if 2 ^ 1024 \<le> r then PInf
           else if r \<le> - (2 ^ 1024) then NInf
           else if \<bar>r\<bar> \<le> 1 / 2 ^ 1075 then Fin 0
           else Fin r)"

text \<open>The arithmetic of the special values.\<close>

fun fp_neg :: "ieee \<Rightarrow> ieee" where
  "fp_neg (Fin a) = Fin (- a)"
| "fp_neg PInf = NInf"
| "fp_neg NInf = PInf"
| "fp_neg NaN = NaN"

fun fp_abs :: "ieee \<Rightarrow> ieee" where
  "fp_abs (Fin a) = Fin \<bar>a\<bar>"
| "fp_abs PInf = PInf"
| "fp_abs NInf = PInf"
| "fp_abs NaN = NaN"

fun fp_add :: "ieee \<Rightarrow> ieee \<Rightarrow> ieee" where
  "fp_add (Fin a) (Fin b) = fl (a + b)"
| "fp_add NaN y = NaN"
| "fp_add x NaN = NaN"
| "fp_add PInf NInf = NaN"
| "fp_add NInf PInf = NaN"
| "fp_add PInf y = PInf"
| "fp_add x PInf = PInf"
| "fp_add NInf y = NInf"
| "fp_add x NInf = NInf"

definition fp_sub :: "ieee \<Rightarrow> ieee \<Rightarrow> ieee" where
  "fp_sub x y = fp_add x (fp_neg y)"

definition inf_of_sign :: "real \<Rightarrow> ieee" where
  "inf_of_sign a = (if a = 0 then NaN else if 0 < a then PInf else NInf)"

fun fp_mul :: "ieee \<Rightarrow> ieee \<Rightarrow> ieee" where
  "fp_mul (Fin a) (Fin b) = fl (a * b)"
| "fp_mul NaN y = NaN"
| "fp_mul x NaN = NaN"
| "fp_mul (Fin a) PInf = inf_of_sign a"
| "fp_mul (Fin a) NInf = inf_of_sign (- a)"
| "fp_mul PInf (Fin b) = inf_of_sign b"
| "fp_mul NInf (Fin b) = inf_of_sign (- b)"
| "fp_mul PInf PInf = PInf"
| "fp_mul NInf NInf = PInf"
| "fp_mul PInf NInf = NInf"
| "fp_mul NInf PInf = NInf"

fun fp_div :: "ieee \<Rightarrow> ieee \<Rightarrow> ieee" where
  "fp_div (Fin a) (Fin b) = (if b = 0 then inf_of_sign a else fl (a / b))"
| "fp_div NaN y = NaN"
| "fp_div x NaN = NaN"
| "fp_div (Fin a) y = Fin 0"
| "fp_div PInf (Fin b) = (if 0 \<le> b then PInf else NInf)"
| "fp_div NInf (Fin b) = (if 0 \<le> b then NInf else PInf)"
| "fp_div x y = NaN"

text \<open>\<open>np.exp\<close> and \<open>np.log\<close>: the logarithm of zero is \<open>-inf\<close>, of a negative number nan.\<close>

fun fp_exp :: "ieee \<Rightarrow> ieee" where
  "fp_exp (Fin a) = fl (exp a)"
| "fp_exp PInf = PInf"
| "fp_exp NInf = Fin 0"
| "fp_exp NaN = NaN"

fun fp_log :: "ieee \<Rightarrow> ieee" where
  "fp_log (Fin a) = (if 0 < a then fl (ln a) else if a = 0 then NInf else NaN)"
| "fp_log PInf = PInf"
| "fp_log NInf = NaN"
| "fp_log NaN = NaN"

text \<open>
  The comparison \<open>x > y\<close>, false when either side is nan, and the maximum of \<open>np.max\<close>,
  which is nan when either argument is.
\<close>

fun fp_gt :: "ieee \<Rightarrow> ieee \<Rightarrow> bool" where
  "fp_gt (Fin a) (Fin b) = (b < a)"
| "fp_gt NaN y = False"
| "fp_gt x NaN = False"
| "fp_gt PInf PInf = False"
| "fp_gt PInf y = True"
| "fp_gt x PInf = False"
| "fp_gt NInf y = False"
| "fp_gt x NInf = True"

definition fp_max :: "ieee \<Rightarrow> ieee \<Rightarrow> ieee" where
  "fp_max x y = (if x = NaN \<or> y = NaN then NaN else if fp_gt y x then y else x)"

text \<open>The arrays and their operations, as in the first model.\<close>

definition fp_dot :: "fvec \<Rightarrow> fvec \<Rightarrow> ieee" where
  "fp_dot u v = foldl fp_add (Fin 0) (map2 fp_mul u v)"


definition fp_col :: "nat \<Rightarrow> fmat \<Rightarrow> fvec" where
  "fp_col j M = map (\<lambda>r. r ! j) M"

definition fp_transpose :: "nat \<Rightarrow> fmat \<Rightarrow> fmat" where
  "fp_transpose k M = map (\<lambda>j. fp_col j M) [0..<k]"

definition fp_matmul :: "nat \<Rightarrow> fmat \<Rightarrow> fmat \<Rightarrow> fmat" where
  "fp_matmul q A B = map (\<lambda>r. map (\<lambda>j. fp_dot r (fp_col j B)) [0..<q]) A"

definition fp_madd :: "fmat \<Rightarrow> fmat \<Rightarrow> fmat" where
  "fp_madd A B = map2 (map2 fp_add) A B"

definition fp_msub :: "fmat \<Rightarrow> fmat \<Rightarrow> fmat" where
  "fp_msub A B = map2 (map2 fp_sub) A B"

definition fp_emul :: "fmat \<Rightarrow> fmat \<Rightarrow> fmat" where
  "fp_emul A B = map2 (map2 fp_mul) A B"

definition fp_mscale :: "ieee \<Rightarrow> fmat \<Rightarrow> fmat" where
  "fp_mscale c A = map (map (fp_mul c)) A"

definition fp_mneg :: "fmat \<Rightarrow> fmat" where
  "fp_mneg A = map (map fp_neg) A"

definition fp_mexp :: "fmat \<Rightarrow> fmat" where
  "fp_mexp A = map (map fp_exp) A"

definition fp_mlog :: "fmat \<Rightarrow> fmat" where
  "fp_mlog A = map (map fp_log) A"

definition fp_mabs :: "fmat \<Rightarrow> fmat" where
  "fp_mabs A = map (map fp_abs) A"

definition fp_msub_scalar :: "fmat \<Rightarrow> ieee \<Rightarrow> fmat" where
  "fp_msub_scalar A c = map (map (\<lambda>x. fp_sub x c)) A"

definition fp_ones :: "nat \<Rightarrow> nat \<Rightarrow> fmat" where
  "fp_ones n k = replicate n (replicate k (Fin 1))"

definition fp_hcat :: "fmat \<Rightarrow> fmat \<Rightarrow> fmat" where
  "fp_hcat A B = map2 (@) A B"

definition fp_cols :: "nat \<Rightarrow> nat \<Rightarrow> fmat \<Rightarrow> fmat" where
  "fp_cols a b M = map (\<lambda>r. take (b - a) (drop a r)) M"

definition fp_amax :: "fmat \<Rightarrow> error + ieee" where
  "fp_amax A = (case concat A of [] \<Rightarrow> Inl ValueError | x # xs \<Rightarrow> Inr (fold fp_max xs x))"

definition fp_argwhere_pos :: "fmat \<Rightarrow> nat list" where
  "fp_argwhere_pos v = filter (\<lambda>i. case v ! i of [w] \<Rightarrow> fp_gt w (Fin 0) | _ \<Rightarrow> False) [0..<length v]"

definition fp_rows_at :: "nat list \<Rightarrow> fmat \<Rightarrow> fmat" where
  "fp_rows_at idx M = map (\<lambda>i. M ! i) idx"

definition fp_first_gt :: "fmat \<Rightarrow> ieee \<Rightarrow> error + bool" where
  "fp_first_gt vb c = (case vb of [] \<Rightarrow> Inl IndexError
                       | [x] # _ \<Rightarrow> Inr (fp_gt x c)
                       | _ \<Rightarrow> Inl ValueError)"

text \<open>
  \<open>np.linalg.inv\<close> is a routine of the library. The estimators below take it as the
  parameter \<open>linv\<close>, a function that returns an array or raises. \<open>fp_linalg_inv\<close> is the
  elimination of the first model over these values: an entry counts as a pivot when it
  differs from zero, which nan and the infinities do.
\<close>

definition fp_identity :: "nat \<Rightarrow> fmat" where
  "fp_identity n = map (\<lambda>i. map (\<lambda>j. if j = i then Fin 1 else Fin 0) [0..<n]) [0..<n]"

fun fp_find_pivot :: "nat \<Rightarrow> fvec list \<Rightarrow> (fvec \<times> fvec list) option" where
  "fp_find_pivot j [] = None"
| "fp_find_pivot j (r # rs) =
     (if r ! j \<noteq> Fin 0 then Some (r, rs)
      else (case fp_find_pivot j rs of None \<Rightarrow> None | Some (p, rest) \<Rightarrow> Some (p, r # rest)))"

definition fp_eliminate :: "nat \<Rightarrow> fvec \<Rightarrow> fvec \<Rightarrow> fvec" where
  "fp_eliminate j p r = map2 fp_add r (map (fp_mul (fp_neg (r ! j))) p)"

fun fp_gauss_jordan :: "nat \<Rightarrow> nat \<Rightarrow> fvec list \<Rightarrow> fvec list \<Rightarrow> fvec list option" where
  "fp_gauss_jordan 0 j done todo = Some done"
| "fp_gauss_jordan (Suc k) j done todo =
     (case fp_find_pivot j todo of
        None \<Rightarrow> None
      | Some (r, rest) \<Rightarrow>
          (let p = map (fp_mul (fp_div (Fin 1) (r ! j))) r
           in fp_gauss_jordan k (Suc j) (map (fp_eliminate j p) done @ [p])
                (map (fp_eliminate j p) rest)))"

definition fp_linalg_inv :: "fmat \<Rightarrow> error + fmat" where
  "fp_linalg_inv A =
     (if \<not> list_all (\<lambda>r. length r = length A) A then Inl LinAlgError
      else (case fp_gauss_jordan (length A) 0 [] (map2 (@) A (fp_identity (length A))) of
              None \<Rightarrow> Inl LinAlgError
            | Some rows \<Rightarrow> Inr (map (drop (length A)) rows)))"

text \<open>The third cell.\<close>

definition fp_vrweight :: "fmat \<Rightarrow> fmat" where
  "fp_vrweight mdata = fp_cols 2 3 mdata"

definition fp_vloc :: "fmat \<Rightarrow> nat list" where
  "fp_vloc mdata = fp_argwhere_pos (fp_vrweight mdata)"

definition fp_mdata0 :: "fmat \<Rightarrow> fmat" where
  "fp_mdata0 mdata = fp_rows_at (fp_vloc mdata) mdata"

definition fp_vLNrweight :: "fmat \<Rightarrow> fmat" where
  "fp_vLNrweight mdata = fp_mlog (fp_rows_at (fp_vloc mdata) (fp_vrweight mdata))"

definition fp_design_X :: "fmat \<Rightarrow> fmat" where
  "fp_design_X m = fp_hcat (fp_hcat (fp_cols 8 9 m) (fp_cols 3 8 m)) (fp_ones (length (fp_cols 8 9 m)) 1)"

definition fp_design_Z :: "fmat \<Rightarrow> fmat" where
  "fp_design_Z m = fp_hcat (fp_hcat (fp_cols 9 10 m) (fp_cols 3 8 m)) (fp_ones (length (fp_cols 8 9 m)) 1)"

definition fp_design_X_reduced :: "fmat \<Rightarrow> fmat" where
  "fp_design_X_reduced m = fp_hcat (fp_cols 3 8 m) (fp_ones (length (fp_cols 8 9 m)) 1)"

definition fp_vb_linearIV_unconstrained :: "(fmat \<Rightarrow> error + fmat) \<Rightarrow> fmat \<Rightarrow> error + fmat" where
  "fp_vb_linearIV_unconstrained linv mdata =
     (let mX = fp_design_X (fp_mdata0 mdata);
          mZ = fp_design_Z (fp_mdata0 mdata);
          dT = length (fp_cols 8 9 (fp_mdata0 mdata))
      in case linv (fp_matmul 7 (fp_transpose 7 mZ) mX) of
           Inl e \<Rightarrow> Inl e
         | Inr M \<Rightarrow> Inr (fp_matmul 1 (fp_matmul dT M (fp_transpose 7 mZ)) (fp_vLNrweight mdata)))"

definition fp_vb_linearIV_constrained :: "(fmat \<Rightarrow> error + fmat) \<Rightarrow> fmat \<Rightarrow> error + fmat" where
  "fp_vb_linearIV_constrained linv mdata =
     (let mX = fp_design_X_reduced (fp_mdata0 mdata);
          vLNme = fp_cols 8 9 (fp_mdata0 mdata);
          dT = length vLNme
      in case linv (fp_matmul 6 (fp_transpose 6 mX) mX) of
           Inl e \<Rightarrow> Inl e
         | Inr M \<Rightarrow>
             Inr ([[Fin (99/100)]] @
                  fp_matmul 1 (fp_matmul dT M (fp_transpose 6 mX))
                    (fp_msub (fp_vLNrweight mdata) (fp_mscale (Fin (99/100)) vLNme))))"

definition fp_vb_linearIV :: "(fmat \<Rightarrow> error + fmat) \<Rightarrow> fmat \<Rightarrow> error + fmat" where
  "fp_vb_linearIV linv mdata =
     (case fp_vb_linearIV_unconstrained linv mdata of
        Inl e \<Rightarrow> Inl e
      | Inr vb \<Rightarrow>
          (case fp_first_gt vb (Fin (99/100)) of
             Inl e \<Rightarrow> Inl e
           | Inr True \<Rightarrow> fp_vb_linearIV_constrained linv mdata
           | Inr False \<Rightarrow> Inr vb))"

text \<open>The fourth cell: the bodies of the two loops, the loop, and the two branches.\<close>

definition fp_increment_unconstrained ::
  "(fmat \<Rightarrow> error + fmat) \<Rightarrow> nat \<Rightarrow> fmat \<Rightarrow> fmat \<Rightarrow> fmat \<Rightarrow> fmat \<Rightarrow> error + fmat" where
  "fp_increment_unconstrained linv dN mX mZ w vb =
     (let vlatent = fp_emul w (fp_mexp (fp_matmul 1 (fp_mneg mX) vb));
          mZ_tilde = fp_emul (fp_matmul dN vlatent (fp_ones 1 dN)) mZ
      in case linv (fp_matmul dN (fp_transpose dN mZ_tilde) mX) of
           Inl e \<Rightarrow> Inl e
         | Inr M \<Rightarrow>
             Inr (fp_matmul 1 (fp_matmul (length mZ) M (fp_transpose dN mZ))
                    (fp_msub_scalar vlatent (Fin 1))))"

definition fp_update_unconstrained ::
  "(fmat \<Rightarrow> error + fmat) \<Rightarrow> nat \<Rightarrow> fmat \<Rightarrow> fmat \<Rightarrow> fmat \<Rightarrow> fmat \<Rightarrow> error + fmat" where
  "fp_update_unconstrained linv dN mX mZ w vb =
     (case fp_increment_unconstrained linv dN mX mZ w vb of
        Inl e \<Rightarrow> Inl e
      | Inr delta \<Rightarrow> Inr (fp_madd vb delta))"

definition fp_increment_constrained ::
  "(fmat \<Rightarrow> error + fmat) \<Rightarrow> nat \<Rightarrow> fmat \<Rightarrow> fmat \<Rightarrow> fmat \<Rightarrow> fmat \<Rightarrow> error + fmat" where
  "fp_increment_constrained linv dN mX vLNme w vb =
     (let vlatent = fp_emul w (fp_mexp (fp_msub (fp_mscale (Fin (- (99/100))) vLNme) (fp_matmul 1 mX vb)));
          mX_tilde = fp_emul (fp_matmul dN vlatent (fp_ones 1 dN)) mX
      in case linv (fp_matmul dN (fp_transpose dN mX_tilde) mX) of
           Inl e \<Rightarrow> Inl e
         | Inr M \<Rightarrow>
             Inr (fp_matmul 1 (fp_matmul (length mX) M (fp_transpose dN mX))
                    (fp_msub_scalar vlatent (Fin 1))))"

definition fp_update_constrained ::
  "(fmat \<Rightarrow> error + fmat) \<Rightarrow> nat \<Rightarrow> fmat \<Rightarrow> fmat \<Rightarrow> fmat \<Rightarrow> fmat \<Rightarrow> error + fmat" where
  "fp_update_constrained linv dN mX vLNme w vb =
     (case fp_increment_constrained linv dN mX vLNme w vb of
        Inl e \<Rightarrow> Inl e
      | Inr delta \<Rightarrow> Inr (fp_madd vb delta))"

partial_function (option) fp_iterate :: "(fmat \<Rightarrow> error + fmat) \<Rightarrow> ieee \<Rightarrow> fmat \<Rightarrow> (error + fmat) option" where
  "fp_iterate update dchange vb =
     (if fp_gt dchange (Fin (1/10000)) then
        (case update vb of
           Inl e \<Rightarrow> Some (Inl e)
         | Inr vb_new \<Rightarrow>
             (case fp_amax (fp_mabs (fp_msub vb vb_new)) of
                Inl e \<Rightarrow> Some (Inl e)
              | Inr d \<Rightarrow> fp_iterate update d vb_new))
      else Some (Inr vb))"

definition fp_nonlinear_unconstrained :: "(fmat \<Rightarrow> error + fmat) \<Rightarrow> fmat \<Rightarrow> fmat \<Rightarrow> (error + fmat) option" where
  "fp_nonlinear_unconstrained linv mdata vb_lin =
     fp_iterate (fp_update_unconstrained linv 7 (fp_design_X mdata) (fp_design_Z mdata) (fp_vrweight mdata))
       (Fin 1) vb_lin"

definition fp_nonlinear_constrained :: "(fmat \<Rightarrow> error + fmat) \<Rightarrow> fmat \<Rightarrow> fmat \<Rightarrow> (error + fmat) option" where
  "fp_nonlinear_constrained linv mdata vb_lin =
     (case fp_iterate (fp_update_constrained linv 6 (fp_design_X_reduced mdata) (fp_cols 8 9 mdata)
                         (fp_vrweight mdata))
             (Fin 1) (drop 1 vb_lin) of
        None \<Rightarrow> None
      | Some (Inl e) \<Rightarrow> Some (Inl e)
      | Some (Inr vb) \<Rightarrow> Some (Inr ([[Fin (99/100)]] @ vb)))"

definition fp_vb_nonlinearIV :: "(fmat \<Rightarrow> error + fmat) \<Rightarrow> fmat \<Rightarrow> fmat \<Rightarrow> (error + fmat) option" where
  "fp_vb_nonlinearIV linv mdata vb_lin =
     (case fp_nonlinear_unconstrained linv mdata vb_lin of
        None \<Rightarrow> None
      | Some (Inl e) \<Rightarrow> Some (Inl e)
      | Some (Inr vb) \<Rightarrow>
          (case fp_first_gt vb (Fin (99/100)) of
             Inl e \<Rightarrow> Some (Inl e)
           | Inr True \<Rightarrow> fp_nonlinear_constrained linv mdata vb_lin
           | Inr False \<Rightarrow> Some (Inr vb)))"

definition fp_estimate :: "(fmat \<Rightarrow> error + fmat) \<Rightarrow> fmat \<Rightarrow> (error + fmat \<times> fmat) option" where
  "fp_estimate linv mdata =
     (case fp_vb_linearIV linv mdata of
        Inl e \<Rightarrow> Some (Inl e)
      | Inr vb_lin \<Rightarrow>
          (case fp_vb_nonlinearIV linv mdata vb_lin of
             None \<Rightarrow> None
           | Some (Inl e) \<Rightarrow> Some (Inl e)
           | Some (Inr vb_nl) \<Rightarrow> Some (Inr (vb_lin, vb_nl))))"

section \<open>Example tables\<close>

text \<open>
  Seven securities held with weight 1/8 each: one with all regressors zero, one with
  log market value 1 (the instrument equal to it), and one for each characteristic
  with that characteristic equal to 1.
\<close>

definition row_base :: vec where
  "row_base = [90457, 0, 1/8, 0, 0, 0, 0, 0, 0, 0]"

definition row_me :: vec where
  "row_me = [90457, 0, 1/8, 0, 0, 0, 0, 0, 1, 1]"

definition row_char :: "nat \<Rightarrow> vec" where
  "row_char k = [90457, 0, 1/8] @ map (\<lambda>j. if j = k then 1 else 0) [0..<5] @ [0, 0]"

definition table_even :: mat where
  "table_even = [row_base, row_me, row_char 0, row_char 1, row_char 2, row_char 3, row_char 4]"

definition vb_even :: mat where
  "vb_even = [[0], [0], [0], [0], [0], [0], [ln (1/8)]]"

text \<open>
  The same table with an eighth security that is not held: log market value 2 and all
  characteristics zero. \<open>div_X\<close> is its design matrix, and \<open>div_inverse l\<close> the inverse
  of the cross-product matrix when the latent values are \<open>l\<close>.
\<close>

definition row_absent :: vec where
  "row_absent = [90457, 0, 0, 0, 0, 0, 0, 0, 2, 2]"

definition table_div :: mat where
  "table_div = table_even @ [row_absent]"

definition div_X :: mat where
  "div_X = [[0,0,0,0,0,0,1], [1,0,0,0,0,0,1], [0,1,0,0,0,0,1], [0,0,1,0,0,0,1],
            [0,0,0,1,0,0,1], [0,0,0,0,1,0,1], [0,0,0,0,0,1,1], [2,0,0,0,0,0,1]]"

definition div_inverse :: "vec \<Rightarrow> mat" where
  "div_inverse l = (let a = 1 / l ! 0 in
     [[1 / l ! 1 + a, a, a, a, a, a, - a],
      [a, 1 / l ! 2 + a, a, a, a, a, - a],
      [a, a, 1 / l ! 3 + a, a, a, a, - a],
      [a, a, a, 1 / l ! 4 + a, a, a, - a],
      [a, a, a, a, 1 / l ! 5 + a, a, - a],
      [a, a, a, a, a, 1 / l ! 6 + a, - a],
      [- a, - a, - a, - a, - a, - a, a]])"

text \<open>The inverse of the cross-product matrix of the first table.\<close>

definition inverse_even :: mat where
  "inverse_even =
     [[2, 1, 1, 1, 1, 1, - 1], [1, 2, 1, 1, 1, 1, - 1], [1, 1, 2, 1, 1, 1, - 1],
      [1, 1, 1, 2, 1, 1, - 1], [1, 1, 1, 1, 2, 1, - 1], [1, 1, 1, 1, 1, 2, - 1],
      [- 1, - 1, - 1, - 1, - 1, - 1, 1]]"

text \<open>
  Seven securities whose weights are generated by the model with market-value coefficient
  1.2 and intercept \<open>ln (1/16)\<close>, the unconstrained and the constrained linear estimate
  on them, and the inverse of the reduced cross-product matrix.
\<close>

definition table_steep :: mat where
  "table_steep =
     [[90457, 0, 1/16, 0, 0, 0, 0, 0, 0, 0],
      [90457, 0, exp (6/5) / 16, 0, 0, 0, 0, 0, 1, 1],
      [90457, 0, 1/16, 1, 0, 0, 0, 0, 0, 0],
      [90457, 0, 1/16, 0, 1, 0, 0, 0, 0, 0],
      [90457, 0, 1/16, 0, 0, 1, 0, 0, 0, 0],
      [90457, 0, 1/16, 0, 0, 0, 1, 0, 0, 0],
      [90457, 0, 1/16, 0, 0, 0, 0, 1, 0, 0]]"

definition vb_steep_unconstrained :: mat where
  "vb_steep_unconstrained = [[6/5], [0], [0], [0], [0], [0], [ln (1/16)]]"

definition vb_steep :: mat where
  "vb_steep = [[99/100], [- (21/200)], [- (21/200)], [- (21/200)], [- (21/200)], [- (21/200)],
               [21/200 + ln (1/16)]]"

definition inverse_steep_reduced :: mat where
  "inverse_steep_reduced =
     [[3/2, 1/2, 1/2, 1/2, 1/2, - (1/2)], [1/2, 3/2, 1/2, 1/2, 1/2, - (1/2)],
      [1/2, 1/2, 3/2, 1/2, 1/2, - (1/2)], [1/2, 1/2, 1/2, 3/2, 1/2, - (1/2)],
      [1/2, 1/2, 1/2, 1/2, 3/2, - (1/2)], [- (1/2), - (1/2), - (1/2), - (1/2), - (1/2), 1/2]]"

text \<open>
  Seven securities held with weight 1/8 each, two of them with a large first
  characteristic, and an eighth that is not held. \<open>wide_X\<close> is the design matrix,
  \<open>wide_inverse a b\<close> the inverse of the cross-product matrix when the latent values of
  the first two rows are \<open>a\<close> and \<open>b\<close> and those of the other held securities are 1, and
  \<open>wide_increment a b\<close> the increment of the update then.
\<close>

definition table_wide :: mat where
  "table_wide =
     [[90457, 0, 1/8, 6000, 0, 0, 0, 0, 0, 0],
      [90457, 0, 1/8, 12000, 0, 0, 0, 0, 0, 0],
      [90457, 0, 1/8, 0, 0, 0, 0, 0, 1, 1],
      [90457, 0, 1/8, 0, 1, 0, 0, 0, 0, 0],
      [90457, 0, 1/8, 0, 0, 1, 0, 0, 0, 0],
      [90457, 0, 1/8, 0, 0, 0, 1, 0, 0, 0],
      [90457, 0, 1/8, 0, 0, 0, 0, 1, 0, 0],
      [90457, 0, 0, 10000, 0, 0, 0, 0, 0, 0]]"

definition wide_X :: mat where
  "wide_X = [[0, 6000, 0, 0, 0, 0, 1], [0, 12000, 0, 0, 0, 0, 1], [1, 0, 0, 0, 0, 0, 1],
             [0, 0, 1, 0, 0, 0, 1], [0, 0, 0, 1, 0, 0, 1], [0, 0, 0, 0, 1, 0, 1],
             [0, 0, 0, 0, 0, 1, 1], [0, 10000, 0, 0, 0, 0, 1]]"

definition wide_inverse :: "real \<Rightarrow> real \<Rightarrow> mat" where
  "wide_inverse a b =
     (let s = 4 / a + 1 / b; t = (2 / a + 1 / b) / 6000; v = (1 / a + 1 / b) / 36000000
      in [[s + 1, t, s, s, s, s, - s],
          [t, v, t, t, t, t, - t],
          [s, t, s + 1, s, s, s, - s],
          [s, t, s, s + 1, s, s, - s],
          [s, t, s, s, s + 1, s, - s],
          [s, t, s, s, s, s + 1, - s],
          [- s, - t, - s, - s, - s, - s, s]])"

definition wide_increment :: "real \<Rightarrow> real \<Rightarrow> vec" where
  "wide_increment a b =
     (let d = 1 - 8 / (3 * a) + 5 / (3 * b); c = (4 / (3 * a) - 5 / (3 * b)) / 6000
      in [- d, c, - d, - d, - d, - d, d])"

definition beta_even :: vec where
  "beta_even = [0, 0, 0, 0, 0, 0, ln (1/8)]"



text \<open>A table with a single security that is not held, and the starting vector of the
  steep table.\<close>

definition table_none :: mat where
  "table_none = [row_absent]"

definition beta_steep :: vec where
  "beta_steep = [6/5, 0, 0, 0, 0, 0, ln (1/16)]"

text \<open>
  Seven securities whose weights are generated by the model with market-value
  coefficient 1.99 and intercept \<open>ln (1/16)\<close>; two of them have market values 1/2 and
  3/2 and no characteristic. \<open>fixed_inverse a b\<close> is the inverse of the cross-product
  matrix \<open>X\<^sup>T X\<close> when the two log market values are \<open>a\<close> and \<open>b\<close>.
\<close>

definition table_fixed :: mat where
  "table_fixed =
     [[90457, 0, exp (199/100 * ln (1/2) + ln (1/16)), 0, 0, 0, 0, 0, ln (1/2), ln (1/2)],
      [90457, 0, exp (199/100 * ln (3/2) + ln (1/16)), 0, 0, 0, 0, 0, ln (3/2), ln (3/2)],
      [90457, 0, 1/16, 1, 0, 0, 0, 0, 0, 0],
      [90457, 0, 1/16, 0, 1, 0, 0, 0, 0, 0],
      [90457, 0, 1/16, 0, 0, 1, 0, 0, 0, 0],
      [90457, 0, 1/16, 0, 0, 0, 1, 0, 0, 0],
      [90457, 0, 1/16, 0, 0, 0, 0, 1, 0, 0]]"

definition beta_fixed :: vec where
  "beta_fixed = [199/100, 0, 0, 0, 0, 0, ln (1/16)]"

definition fixed_X :: "real \<Rightarrow> real \<Rightarrow> mat" where
  "fixed_X a b = [[a, 0, 0, 0, 0, 0, 1], [b, 0, 0, 0, 0, 0, 1], [0, 1, 0, 0, 0, 0, 1],
                  [0, 0, 1, 0, 0, 0, 1], [0, 0, 0, 1, 0, 0, 1], [0, 0, 0, 0, 1, 0, 1],
                  [0, 0, 0, 0, 0, 1, 1]]"

definition fixed_inverse :: "real \<Rightarrow> real \<Rightarrow> mat" where
  "fixed_inverse a b =
     (let q = (a - b) * (a - b); s = (a * a + b * b) / q; t = (a + b) / q; v = 2 / q
      in [[v, t, t, t, t, t, - t],
          [t, s + 1, s, s, s, s, - s],
          [t, s, s + 1, s, s, s, - s],
          [t, s, s, s + 1, s, s, - s],
          [t, s, s, s, s + 1, s, - s],
          [t, s, s, s, s, s + 1, - s],
          [- t, - s, - s, - s, - s, - s, s]])"

text \<open>
  Seven securities held with weights \<open>exp (-3)\<close> and, for the one with the first
  characteristic, \<open>exp (-2)\<close>, and an eighth that is not held and whose first
  characteristic is \<open>-2000\<close>. \<open>vb_overflow\<close> is the linear estimate, \<open>overflow_X\<close> the
  design matrix of the held rows, \<open>overflow_inverse\<close> the inverse of its cross-product
  matrix, and \<open>overflow_X8\<close> the design matrix of all rows.
\<close>

definition table_overflow :: fmat where
  "table_overflow =
     [[Fin 90457, Fin 0, Fin (exp (- 3)), Fin 0, Fin 0, Fin 0, Fin 0, Fin 0, Fin 0, Fin 0],
      [Fin 90457, Fin 0, Fin (exp (- 3)), Fin 0, Fin 0, Fin 0, Fin 0, Fin 0, Fin 1, Fin 1],
      [Fin 90457, Fin 0, Fin (exp (- 2)), Fin 1, Fin 0, Fin 0, Fin 0, Fin 0, Fin 0, Fin 0],
      [Fin 90457, Fin 0, Fin (exp (- 3)), Fin 0, Fin 1, Fin 0, Fin 0, Fin 0, Fin 0, Fin 0],
      [Fin 90457, Fin 0, Fin (exp (- 3)), Fin 0, Fin 0, Fin 1, Fin 0, Fin 0, Fin 0, Fin 0],
      [Fin 90457, Fin 0, Fin (exp (- 3)), Fin 0, Fin 0, Fin 0, Fin 1, Fin 0, Fin 0, Fin 0],
      [Fin 90457, Fin 0, Fin (exp (- 3)), Fin 0, Fin 0, Fin 0, Fin 0, Fin 1, Fin 0, Fin 0],
      [Fin 90457, Fin 0, Fin 0, Fin (- 2000), Fin 0, Fin 0, Fin 0, Fin 0, Fin 0, Fin 0]]"

definition vb_overflow :: fmat where
  "vb_overflow = [[Fin 0], [Fin 1], [Fin 0], [Fin 0], [Fin 0], [Fin 0], [Fin (- 3)]]"

definition overflow_X :: fmat where
  "overflow_X = [[Fin 0, Fin 0, Fin 0, Fin 0, Fin 0, Fin 0, Fin 1],
                 [Fin 1, Fin 0, Fin 0, Fin 0, Fin 0, Fin 0, Fin 1],
                 [Fin 0, Fin 1, Fin 0, Fin 0, Fin 0, Fin 0, Fin 1],
                 [Fin 0, Fin 0, Fin 1, Fin 0, Fin 0, Fin 0, Fin 1],
                 [Fin 0, Fin 0, Fin 0, Fin 1, Fin 0, Fin 0, Fin 1],
                 [Fin 0, Fin 0, Fin 0, Fin 0, Fin 1, Fin 0, Fin 1],
                 [Fin 0, Fin 0, Fin 0, Fin 0, Fin 0, Fin 1, Fin 1]]"

definition overflow_inverse :: fmat where
  "overflow_inverse =
     [[Fin 2, Fin 1, Fin 1, Fin 1, Fin 1, Fin 1, Fin (- 1)],
      [Fin 1, Fin 2, Fin 1, Fin 1, Fin 1, Fin 1, Fin (- 1)],
      [Fin 1, Fin 1, Fin 2, Fin 1, Fin 1, Fin 1, Fin (- 1)],
      [Fin 1, Fin 1, Fin 1, Fin 2, Fin 1, Fin 1, Fin (- 1)],
      [Fin 1, Fin 1, Fin 1, Fin 1, Fin 2, Fin 1, Fin (- 1)],
      [Fin 1, Fin 1, Fin 1, Fin 1, Fin 1, Fin 2, Fin (- 1)],
      [Fin (- 1), Fin (- 1), Fin (- 1), Fin (- 1), Fin (- 1), Fin (- 1), Fin 1]]"

definition overflow_X8 :: fmat where
  "overflow_X8 = overflow_X @ [[Fin 0, Fin (- 2000), Fin 0, Fin 0, Fin 0, Fin 0, Fin 1]]"

definition nan_matrix :: "nat \<Rightarrow> nat \<Rightarrow> fmat" where
  "nan_matrix n k = replicate n (replicate k NaN)"

section \<open>Correctness of the matrix inverse\<close>

subsection \<open>Vectors\<close>

lemma length_vadd [simp]: "length (vadd u v) = min (length u) (length v)"
  by (simp add: vadd_def)

lemma length_smul [simp]: "length (smul c v) = length v"
  by (simp add: smul_def)

lemma nth_vadd [simp]: "i < length u \<Longrightarrow> i < length v \<Longrightarrow> vadd u v ! i = u ! i + v ! i"
  by (simp add: vadd_def)

lemma nth_smul [simp]: "i < length v \<Longrightarrow> smul c v ! i = c * v ! i"
  by (simp add: smul_def)

lemma length_eliminate [simp]: "length (eliminate j p r) = min (length r) (length p)"
  by (simp add: eliminate_def)

lemma nth_eliminate [simp]:
  "i < length r \<Longrightarrow> i < length p \<Longrightarrow> eliminate j p r ! i = r ! i - r ! j * p ! i"
  by (simp add: eliminate_def)

lemma length_unit_vec [simp]: "length (unit_vec n i) = n"
  by (simp add: unit_vec_def)

lemma nth_unit_vec [simp]: "j < n \<Longrightarrow> unit_vec n i ! j = (if j = i then 1 else 0)"
  by (simp add: unit_vec_def)

lemma dot_sum: "dot u v = (\<Sum>k<min (length u) (length v). u ! k * v ! k)"
proof -
  have "dot u v = (\<Sum>k = 0..<length (map2 (*) u v). map2 (*) u v ! k)"
    unfolding dot_def by (rule sum_list_sum_nth)
  also have "\<dots> = (\<Sum>k = 0..<min (length u) (length v). u ! k * v ! k)"
    by (rule sum.cong) auto
  finally show ?thesis by (simp add: atLeast0LessThan)
qed

lemma dot_vadd:
  "length u = length v \<Longrightarrow> dot (vadd u v) w = dot u w + dot v w"
  by (simp add: dot_sum sum.distrib [symmetric] algebra_simps)

lemma dot_smul: "dot (smul c u) w = c * dot u w"
  by (simp add: dot_sum sum_distrib_left algebra_simps)

lemma dot_unit_vec: "i < n \<Longrightarrow> length v = n \<Longrightarrow> dot (unit_vec n i) v = v ! i"
  by (simp add: dot_sum if_distrib [of "\<lambda>x. x * _"] cong: if_cong)

lemma dot_unit_vec_right: "i < n \<Longrightarrow> length v = n \<Longrightarrow> dot v (unit_vec n i) = v ! i"
  by (simp add: dot_sum if_distrib [of "\<lambda>x. _ * x"] cong: if_cong)


subsection \<open>Elimination\<close>

lemma find_pivot_Some:
  "find_pivot j todo = Some (r, rest) \<Longrightarrow>
     r ! j \<noteq> 0 \<and> set todo = insert r (set rest) \<and> length todo = Suc (length rest)"
  by (induction todo arbitrary: rest) (auto split: if_splits option.splits)

lemma find_pivot_None: "find_pivot j todo = None \<Longrightarrow> \<forall>r\<in>set todo. r ! j = 0"
  by (induction todo) (auto split: if_splits option.splits)

lemma smul_smul_inverse: "a \<noteq> 0 \<Longrightarrow> smul a (smul (1 / a) r) = r"
  by (simp add: smul_def comp_def)

lemma eliminate_undo:
  "length x = length p \<Longrightarrow> vadd (eliminate j p x) (smul (x ! j) p) = x"
  by (rule nth_equalityI) simp_all

lemma step_reflects:
  assumes add: "\<And>u v. length u = m \<Longrightarrow> length v = m \<Longrightarrow> P u \<Longrightarrow> P v \<Longrightarrow> P (vadd u v)"
    and scale: "\<And>c u. length u = m \<Longrightarrow> P u \<Longrightarrow> P (smul c u)"
    and len: "length p = m" "length x = m"
    and p: "P p" and e: "P (eliminate j p x)"
  shows "P x"
proof -
  have "P (vadd (eliminate j p x) (smul (x ! j) p))"
    using len p e by (intro add scale) simp_all
  then show ?thesis using len by (simp add: eliminate_undo)
qed

lemma step_preserves:
  assumes add: "\<And>u v. length u = m \<Longrightarrow> length v = m \<Longrightarrow> P u \<Longrightarrow> P v \<Longrightarrow> P (vadd u v)"
    and scale: "\<And>c u. length u = m \<Longrightarrow> P u \<Longrightarrow> P (smul c u)"
    and len: "length p = m" "length x = m"
    and p: "P p" and x: "P x"
  shows "P (eliminate j p x)"
  unfolding eliminate_def using len p x by (intro add scale) simp_all

lemma gauss_jordan_preserves:
  assumes add: "\<And>u v. length u = m \<Longrightarrow> length v = m \<Longrightarrow> P u \<Longrightarrow> P v \<Longrightarrow> P (vadd u v)"
    and scale: "\<And>c u. length u = m \<Longrightarrow> P u \<Longrightarrow> P (smul c u)"
  shows "gauss_jordan k j done todo = Some rows \<Longrightarrow>
         \<forall>r\<in>set done \<union> set todo. length r = m \<and> P r \<Longrightarrow>
         \<forall>r\<in>set rows. length r = m \<and> P r"
proof (induction k arbitrary: j "done" todo)
  case 0
  then show ?case by simp
next
  case (Suc k)
  from Suc.prems(1) obtain r rest where fp: "find_pivot j todo = Some (r, rest)"
    by (auto split: option.splits)
  define p where "p = smul (1 / r ! j) r"
  from fp have todo: "set todo = insert r (set rest)" using find_pivot_Some by blast
  have r: "length r = m" "P r" using Suc.prems(2) todo by auto
  have p: "length p = m" "P p" using r by (auto simp: p_def intro: scale)
  have run: "gauss_jordan k (Suc j) (map (eliminate j p) done @ [p]) (map (eliminate j p) rest) = Some rows"
    using Suc.prems(1) fp by (simp add: p_def Let_def)
  show ?case
  proof (rule Suc.IH [OF run], intro ballI)
    fix y assume "y \<in> set (map (eliminate j p) done @ [p]) \<union> set (map (eliminate j p) rest)"
    then consider "y = p" | x where "x \<in> set done \<union> set rest" "y = eliminate j p x" by auto
    then show "length y = m \<and> P y"
    proof cases
      case 1 with p show ?thesis by simp
    next
      case 2
      then have x: "length x = m" "P x" using Suc.prems(2) todo by auto
      with p 2 show ?thesis by (auto intro: step_preserves [OF add scale])
    qed
  qed
qed

lemma gauss_jordan_reflects:
  assumes add: "\<And>u v. length u = m \<Longrightarrow> length v = m \<Longrightarrow> P u \<Longrightarrow> P v \<Longrightarrow> P (vadd u v)"
    and scale: "\<And>c u. length u = m \<Longrightarrow> P u \<Longrightarrow> P (smul c u)"
  shows "gauss_jordan k j done todo = Some rows \<Longrightarrow> length todo = k \<Longrightarrow>
         \<forall>r\<in>set done \<union> set todo. length r = m \<Longrightarrow>
         \<forall>r\<in>set rows. P r \<Longrightarrow>
         \<forall>r\<in>set done \<union> set todo. P r"
proof (induction k arbitrary: j "done" todo)
  case 0
  then show ?case by simp
next
  case (Suc k)
  from Suc.prems(1) obtain r rest where fp: "find_pivot j todo = Some (r, rest)"
    by (auto split: option.splits)
  define p where "p = smul (1 / r ! j) r"
  from fp have todo: "set todo = insert r (set rest)" and nz: "r ! j \<noteq> 0"
    and lr: "length todo = Suc (length rest)"
    using find_pivot_Some by blast+
  have k: "length (map (eliminate j p) rest) = k" using lr Suc.prems(2) by simp
  have r: "length r = m" using Suc.prems(3) todo by auto
  have p: "length p = m" using r by (simp add: p_def)
  have run: "gauss_jordan k (Suc j) (map (eliminate j p) done @ [p]) (map (eliminate j p) rest) = Some rows"
    using Suc.prems(1) fp by (simp add: p_def Let_def)
  have len': "\<forall>y\<in>set (map (eliminate j p) done @ [p]) \<union> set (map (eliminate j p) rest). length y = m"
    using Suc.prems(3) todo p by auto
  have ih: "\<forall>y\<in>set (map (eliminate j p) done @ [p]) \<union> set (map (eliminate j p) rest). P y"
    by (rule Suc.IH [OF run k len' Suc.prems(4)])
  then have Pp: "P p" by simp
  have "P (smul (r ! j) p)" using p Pp by (rule scale)
  then have Pr: "P r" using nz by (simp add: p_def smul_smul_inverse)
  show ?case
  proof
    fix x assume x: "x \<in> set done \<union> set todo"
    show "P x"
    proof (cases "x = r")
      case True with Pr show ?thesis by simp
    next
      case False
      with x todo have mem: "x \<in> set done \<union> set rest" by auto
      then have "P (eliminate j p x)" using ih by auto
      moreover have "length x = m" using Suc.prems(3) x by auto
      ultimately show ?thesis using p Pp by (auto intro: step_reflects [OF add scale])
    qed
  qed
qed


text \<open>The columns already treated form the identity.\<close>

lemma step_identity:
  assumes fp: "find_pivot j todo = Some (r, rest)"
    and p: "p = smul (1 / r ! j) r"
    and ld: "length done = j"
    and len: "\<forall>r\<in>set done \<union> set todo. length r = m" and jm: "j < m"
    and idd: "\<forall>i<j. \<forall>c<j. done ! i ! c = (if i = c then 1 else 0)"
    and zt: "\<forall>r\<in>set todo. \<forall>c<j. r ! c = 0"
  shows "(\<forall>i<Suc j. \<forall>c<Suc j. (map (eliminate j p) done @ [p]) ! i ! c = (if i = c then 1 else 0)) \<and>
         (\<forall>r\<in>set (map (eliminate j p) rest). \<forall>c<Suc j. r ! c = 0) \<and>
         (\<forall>r\<in>set (map (eliminate j p) done @ [p]) \<union> set (map (eliminate j p) rest). length r = m)"
proof -
  from fp have todo: "set todo = insert r (set rest)" and nz: "r ! j \<noteq> 0"
    using find_pivot_Some by blast+
  have r: "length r = m" "\<forall>c<j. r ! c = 0" using len zt todo by auto
  have pl: "length p = m" using r by (simp add: p)
  have pj: "p ! j = 1" using r jm nz by (simp add: p)
  have pc: "\<forall>c<j. p ! c = 0" using r jm by (simp add: p)
  have A: "\<forall>i<Suc j. \<forall>c<Suc j. (map (eliminate j p) done @ [p]) ! i ! c = (if i = c then 1 else 0)"
  proof (intro allI impI)
    fix i c assume i: "i < Suc j" and c: "c < Suc j"
    show "(map (eliminate j p) done @ [p]) ! i ! c = (if i = c then 1 else 0)"
    proof (cases "i = j")
      case True
      then show ?thesis using ld pj pc c by (cases "c = j") (auto simp: nth_append)
    next
      case False
      with i have ij: "i < j" by simp
      then have di: "done ! i \<in> set done" using ld by simp
      then have dl: "length (done ! i) = m" using len by auto
      have "(map (eliminate j p) done @ [p]) ! i = eliminate j p (done ! i)"
        using ij ld by (simp add: nth_append)
      then show ?thesis using dl pl jm c ij idd pj pc
        by (cases "c = j") auto
    qed
  qed
  have B: "\<forall>r\<in>set (map (eliminate j p) rest). \<forall>c<Suc j. r ! c = 0"
  proof (intro ballI allI impI)
    fix y c assume y: "y \<in> set (map (eliminate j p) rest)" and c: "c < Suc j"
    then obtain x where x: "x \<in> set rest" "y = eliminate j p x" by auto
    then have xl: "length x = m" "\<forall>c<j. x ! c = 0" using len zt todo by auto
    show "y ! c = 0" using x xl pl jm c pj pc by (cases "c = j") auto
  qed
  have C: "\<forall>r\<in>set (map (eliminate j p) done @ [p]) \<union> set (map (eliminate j p) rest). length r = m"
    using len todo pl by auto
  from A B C show ?thesis by blast
qed

lemma gauss_jordan_identity:
  "gauss_jordan k j done todo = Some rows \<Longrightarrow> length done = j \<Longrightarrow> length todo = k \<Longrightarrow>
   \<forall>r\<in>set done \<union> set todo. length r = m \<Longrightarrow> j + k \<le> m \<Longrightarrow>
   \<forall>i<j. \<forall>c<j. done ! i ! c = (if i = c then 1 else 0) \<Longrightarrow>
   \<forall>r\<in>set todo. \<forall>c<j. r ! c = 0 \<Longrightarrow>
   length rows = j + k \<and> (\<forall>i<j + k. \<forall>c<j + k. rows ! i ! c = (if i = c then 1 else 0))"
proof (induction k arbitrary: j "done" todo)
  case 0
  then show ?case by simp
next
  case (Suc k)
  from Suc.prems(1) obtain r rest where fp: "find_pivot j todo = Some (r, rest)"
    by (auto split: option.splits)
  define p where "p = smul (1 / r ! j) r"
  have run: "gauss_jordan k (Suc j) (map (eliminate j p) done @ [p]) (map (eliminate j p) rest) = Some rows"
    using Suc.prems(1) fp by (simp add: p_def Let_def)
  have jm: "j < m" using Suc.prems(5) by simp
  note st = step_identity [OF fp p_def Suc.prems(2) Suc.prems(4) jm Suc.prems(6) Suc.prems(7)]
  have lr: "length (map (eliminate j p) rest) = k"
    using find_pivot_Some [OF fp] Suc.prems(3) by simp
  have ld: "length (map (eliminate j p) done @ [p]) = Suc j" using Suc.prems(2) by simp
  have "length rows = Suc j + k \<and> (\<forall>i<Suc j + k. \<forall>c<Suc j + k. rows ! i ! c = (if i = c then 1 else 0))"
    using Suc.IH [OF run ld lr] st Suc.prems(5) by simp
  then show ?case by simp
qed

text \<open>
  When no pivot is left in some column, a non-zero combination of the first \<open>n\<close>
  columns vanishes on every row.
\<close>

lemma no_pivot_kernel:
  assumes np: "\<forall>r\<in>set todo. r ! j = 0"
    and ld: "length done = j"
    and len: "\<forall>r\<in>set done \<union> set todo. length r = m" and jn: "j < n" and nm: "n \<le> m"
    and idd: "\<forall>i<j. \<forall>c<j. done ! i ! c = (if i = c then 1 else 0)"
    and zt: "\<forall>r\<in>set todo. \<forall>c<j. r ! c = 0"
  shows "\<exists>v. length v = n \<and> v ! j \<noteq> 0 \<and> (\<forall>r\<in>set done \<union> set todo. dot (take n r) v = 0)"
proof -
  define v where "v = map (\<lambda>c. if c < j then - (done ! c ! j) else if c = j then 1 else 0) [0..<n]"
  have vl: "length v = n" by (simp add: v_def)
  have vj: "v ! j = 1" using jn by (simp add: v_def)
  have "dot (take n r) v = 0" if r: "r \<in> set done \<union> set todo" for r
  proof -
    have rl: "length r = m" using len r by auto
    have d: "dot (take n r) v = (\<Sum>c<n. r ! c * v ! c)"
      using rl nm vl by (simp add: dot_sum min_def)
    from r show ?thesis
    proof
      assume "r \<in> set todo"
      then have "\<forall>c\<in>{..<n}. r ! c * v ! c = 0" using np zt by (auto simp: v_def)
      then have "(\<Sum>c<n. r ! c * v ! c) = 0" by (rule sum.neutral)
      then show ?thesis using d by simp
    next
      assume "r \<in> set done"
      then obtain i where i: "i < j" "r = done ! i" using ld by (auto simp: in_set_conv_nth)
      have z: "\<forall>c\<in>{..<n} - {i, j}. r ! c * v ! c = 0"
        using i idd by (auto simp: v_def)
      have "(\<Sum>c<n. r ! c * v ! c) = (\<Sum>c\<in>{i, j}. r ! c * v ! c)"
        using z i jn by (intro sum.mono_neutral_right) auto
      also have "\<dots> = r ! i * v ! i + r ! j * v ! j" using i by simp
      also have "\<dots> = 0" using i idd jn by (simp add: v_def)
      finally show ?thesis using d by simp
    qed
  qed
  then show ?thesis using vl vj by (intro exI [of _ v]) simp
qed

lemma take_vadd: "take n (vadd u v) = vadd (take n u) (take n v)"
  by (simp add: vadd_def take_zip take_map)

lemma take_smul: "take n (smul c v) = smul c (take n v)"
  by (simp add: smul_def take_map)

lemma gauss_jordan_None:
  "gauss_jordan k j done todo = None \<Longrightarrow> length done = j \<Longrightarrow> length todo = k \<Longrightarrow>
   \<forall>r\<in>set done \<union> set todo. length r = m \<Longrightarrow> j + k \<le> n \<Longrightarrow> n \<le> m \<Longrightarrow>
   \<forall>i<j. \<forall>c<j. done ! i ! c = (if i = c then 1 else 0) \<Longrightarrow>
   \<forall>r\<in>set todo. \<forall>c<j. r ! c = 0 \<Longrightarrow>
   \<exists>v. length v = n \<and> (\<exists>c<n. v ! c \<noteq> 0) \<and> (\<forall>r\<in>set done \<union> set todo. dot (take n r) v = 0)"
proof (induction k arbitrary: j "done" todo)
  case 0
  then show ?case by simp
next
  case (Suc k)
  have jn: "j < n" using Suc.prems(5) by simp
  have jm: "j < m" using jn Suc.prems(6) by simp
  show ?case
  proof (cases "find_pivot j todo")
    case None
    from no_pivot_kernel [OF find_pivot_None [OF None] Suc.prems(2) Suc.prems(4) jn Suc.prems(6)
        Suc.prems(7) Suc.prems(8)]
    show ?thesis using jn by blast
  next
    case (Some a)
    then obtain r rest where fp: "find_pivot j todo = Some (r, rest)" by (cases a) auto
    define p where "p = smul (1 / r ! j) r"
    from fp have todo: "set todo = insert r (set rest)" and nz: "r ! j \<noteq> 0"
      using find_pivot_Some by blast+
    have run: "gauss_jordan k (Suc j) (map (eliminate j p) done @ [p]) (map (eliminate j p) rest) = None"
      using Suc.prems(1) fp by (simp add: p_def Let_def)
    note st = step_identity [OF fp p_def Suc.prems(2) Suc.prems(4) jm Suc.prems(7) Suc.prems(8)]
    have lr: "length (map (eliminate j p) rest) = k"
      using find_pivot_Some [OF fp] Suc.prems(3) by simp
    have ld: "length (map (eliminate j p) done @ [p]) = Suc j" using Suc.prems(2) by simp
    have "\<exists>v. length v = n \<and> (\<exists>c<n. v ! c \<noteq> 0) \<and>
        (\<forall>r\<in>set (map (eliminate j p) done @ [p]) \<union> set (map (eliminate j p) rest). dot (take n r) v = 0)"
      using Suc.IH [OF run ld lr] st Suc.prems(5) Suc.prems(6) by simp
    then obtain v where v: "length v = n" "\<exists>c<n. v ! c \<noteq> 0"
      and ih: "\<forall>r\<in>set (map (eliminate j p) done @ [p]) \<union> set (map (eliminate j p) rest). dot (take n r) v = 0"
      by blast
    have add: "\<And>u w. length u = m \<Longrightarrow> length w = m \<Longrightarrow> dot (take n u) v = 0 \<Longrightarrow>
        dot (take n w) v = 0 \<Longrightarrow> dot (take n (vadd u w)) v = 0"
      by (simp add: take_vadd dot_vadd)
    have scale: "\<And>c u. length u = m \<Longrightarrow> dot (take n u) v = 0 \<Longrightarrow> dot (take n (smul c u)) v = 0"
      by (simp add: take_smul dot_smul)
    have rl: "length r = m" using Suc.prems(4) todo by auto
    have pl: "length p = m" using rl by (simp add: p_def)
    have Pp: "dot (take n p) v = 0" using ih by simp
    have "dot (take n (smul (r ! j) p)) v = 0" using pl Pp by (rule scale)
    then have Pr: "dot (take n r) v = 0" using nz by (simp add: p_def smul_smul_inverse)
    have "dot (take n x) v = 0" if x: "x \<in> set done \<union> set todo" for x
    proof (cases "x = r")
      case True with Pr show ?thesis by simp
    next
      case False
      with x todo have "x \<in> set done \<union> set rest" by auto
      then have "dot (take n (eliminate j p x)) v = 0" using ih by auto
      moreover have "length x = m" using Suc.prems(4) x by auto
      ultimately show ?thesis using pl Pp
        by (auto intro: step_reflects [where P = "\<lambda>u. dot (take n u) v = 0", OF add scale])
    qed
    then show ?thesis using v by blast
  qed
qed


subsection \<open>Matrices\<close>


lemma shapeD: "shape n q A \<Longrightarrow> length A = n" "shape n q A \<Longrightarrow> i < n \<Longrightarrow> length (A ! i) = q"
  by (auto simp: shape_def)

lemma length_col [simp]: "length (col j M) = length M"
  by (simp add: col_def)

lemma nth_col [simp]: "k < length M \<Longrightarrow> col j M ! k = M ! k ! j"
  by (simp add: col_def)

lemma length_matmul [simp]: "length (matmul q A B) = length A"
  by (simp add: matmul_def)

lemma length_nth_matmul [simp]: "i < length A \<Longrightarrow> length (matmul q A B ! i) = q"
  by (simp add: matmul_def)

lemma nth_matmul: "i < length A \<Longrightarrow> j < q \<Longrightarrow> matmul q A B ! i ! j = dot (A ! i) (col j B)"
  by (simp add: matmul_def)

lemma shape_matmul: "length A = p \<Longrightarrow> shape p q (matmul q A B)"
  by (auto simp: shape_def matmul_def)

lemma shape_identity: "shape n n (identity n)"
  by (auto simp: shape_def identity_def)

lemma nth_identity [simp]: "i < n \<Longrightarrow> identity n ! i = unit_vec n i"
  by (simp add: identity_def)

lemma length_identity [simp]: "length (identity n) = n"
  by (simp add: identity_def)

lemma mat_eqI:
  assumes "shape p q A" "shape p q B" "\<And>i j. i < p \<Longrightarrow> j < q \<Longrightarrow> A ! i ! j = B ! i ! j"
  shows "A = B"
proof (rule nth_equalityI)
  show "length A = length B" using assms by (simp add: shape_def)
  fix i assume i: "i < length A"
  then have "i < p" using assms by (simp add: shape_def)
  then show "A ! i = B ! i"
    using assms by (intro nth_equalityI) (auto simp: shapeD)
qed

lemma dot_rows:
  "length u = n \<Longrightarrow> length B = n \<Longrightarrow> dot u (col j B) = (\<Sum>k<n. u ! k * B ! k ! j)"
  by (simp add: dot_sum)

lemma matmul_assoc:
  assumes C: "shape p n C" and A: "shape n m A" and B: "shape m q B"
  shows "matmul q (matmul m C A) B = matmul q C (matmul q A B)"
proof (rule mat_eqI [where p = p and q = q])
  show "shape p q (matmul q (matmul m C A) B)" using C by (simp add: shape_matmul shapeD)
  show "shape p q (matmul q C (matmul q A B))" using C by (simp add: shape_matmul shapeD)
  fix i j assume i: "i < p" and j: "j < q"
  have lC: "length C = p" "length (C ! i) = n" using C i by (auto simp: shapeD)
  have lA: "length A = n" "\<And>l. l < n \<Longrightarrow> length (A ! l) = m" using A by (auto simp: shapeD)
  have lB: "length B = m" using B by (simp add: shapeD)
  have "matmul q (matmul m C A) B ! i ! j = (\<Sum>k<m. (\<Sum>l<n. C ! i ! l * A ! l ! k) * B ! k ! j)"
    using i j lC lA lB by (simp add: nth_matmul dot_rows)
  also have "\<dots> = (\<Sum>k<m. \<Sum>l<n. C ! i ! l * (A ! l ! k * B ! k ! j))"
    by (simp add: sum_distrib_right mult.assoc)
  also have "\<dots> = (\<Sum>l<n. \<Sum>k<m. C ! i ! l * (A ! l ! k * B ! k ! j))"
    by (rule sum.swap)
  also have "\<dots> = (\<Sum>l<n. C ! i ! l * (\<Sum>k<m. A ! l ! k * B ! k ! j))"
    by (simp add: sum_distrib_left)
  also have "\<dots> = matmul q C (matmul q A B) ! i ! j"
    using i j lC lA lB by (simp add: nth_matmul dot_rows)
  finally show "matmul q (matmul m C A) B ! i ! j = matmul q C (matmul q A B) ! i ! j" .
qed

lemma col_identity: "j < n \<Longrightarrow> col j (identity n) = unit_vec n j"
  by (rule nth_equalityI) auto

lemma matmul_identity_right: "shape p n C \<Longrightarrow> matmul n C (identity n) = C"
proof (rule mat_eqI [where p = p and q = n])
  assume C: "shape p n C"
  then show "shape p n (matmul n C (identity n))" by (simp add: shape_matmul shapeD)
  show "shape p n C" by fact
  fix i j assume i: "i < p" and j: "j < n"
  show "matmul n C (identity n) ! i ! j = C ! i ! j"
    using i j C by (simp add: nth_matmul col_identity dot_unit_vec_right shapeD)
qed

lemma matmul_identity_left: "shape n q B \<Longrightarrow> matmul q (identity n) B = B"
proof (rule mat_eqI [where p = n and q = q])
  assume B: "shape n q B"
  show "shape n q (matmul q (identity n) B)" by (simp add: shape_matmul)
  show "shape n q B" by fact
  fix i j assume i: "i < n" and j: "j < q"
  show "matmul q (identity n) B ! i ! j = B ! i ! j"
    using i j B by (simp add: nth_matmul dot_unit_vec shapeD)
qed



lemma length_vec_mat [simp]: "length (vec_mat q b A) = q"
  by (simp add: vec_mat_def)

lemma matmul_vec_mat: "matmul q B A = map (\<lambda>b. vec_mat q b A) B"
  by (simp add: matmul_def vec_mat_def)

lemma vec_mat_vadd:
  "length u = length v \<Longrightarrow> vec_mat q (vadd u v) A = vadd (vec_mat q u A) (vec_mat q v A)"
  by (rule nth_equalityI) (simp_all add: vec_mat_def dot_vadd)

lemma vec_mat_smul: "vec_mat q (smul c u) A = smul c (vec_mat q u A)"
  by (rule nth_equalityI) (simp_all add: vec_mat_def dot_smul)

lemma vec_mat_unit_vec: "i < n \<Longrightarrow> shape n q A \<Longrightarrow> vec_mat q (unit_vec n i) A = A ! i"
  by (rule nth_equalityI) (simp_all add: vec_mat_def dot_unit_vec shapeD)

lemma drop_vadd: "drop n (vadd u v) = vadd (drop n u) (drop n v)"
  by (simp add: vadd_def drop_zip drop_map)

lemma drop_smul: "drop n (smul c v) = smul c (drop n v)"
  by (simp add: smul_def drop_map)

lemma square_shape: "square A \<longleftrightarrow> shape (length A) (length A) A"
  by (auto simp: square_def shape_def list_all_iff)

lemma augmented_rows:
  assumes A: "shape n n A"
  shows "length (map2 (@) A (identity n)) = n"
    and "\<And>i. i < n \<Longrightarrow> map2 (@) A (identity n) ! i = A ! i @ unit_vec n i"
    and "\<forall>r\<in>set (map2 (@) A (identity n)). length r = n + n"
proof -
  show l: "length (map2 (@) A (identity n)) = n" using A by (simp add: shapeD)
  show nth: "\<And>i. i < n \<Longrightarrow> map2 (@) A (identity n) ! i = A ! i @ unit_vec n i"
    using A by (simp add: shapeD)
  show "\<forall>r\<in>set (map2 (@) A (identity n)). length r = n + n"
  proof
    fix r assume "r \<in> set (map2 (@) A (identity n))"
    then obtain i where "i < n" "r = map2 (@) A (identity n) ! i"
      using l by (metis in_set_conv_nth)
    then show "length r = n + n" using nth A by (simp add: shapeD)
  qed
qed

lemma linalg_inv_run:
  assumes A: "shape n n A" and B: "linalg_inv A = Inr B"
  obtains rows where "gauss_jordan n 0 [] (map2 (@) A (identity n)) = Some rows"
    and "B = map (drop n) rows"
proof -
  have n: "length A = n" using A by (simp add: shapeD)
  have "square A" using A n by (simp add: square_shape)
  with B n that show thesis
    by (auto simp: linalg_inv_def split: option.splits)
qed

theorem linalg_inv_sound:
  assumes A: "shape n n A" and B: "linalg_inv A = Inr B"
  shows "shape n n B" and "matmul n B A = identity n" and "matmul n A B = identity n"
proof -
  let ?todo = "map2 (@) A (identity n)"
  from A B obtain rows where run: "gauss_jordan n 0 [] ?todo = Some rows"
    and Bdef: "B = map (drop n) rows" by (rule linalg_inv_run)
  note aug = augmented_rows [OF A]
  have len0: "\<forall>r\<in>set [] \<union> set ?todo. length r = n + n" using aug(3) by simp
  have idn: "length rows = n \<and> (\<forall>i<n. \<forall>c<n. rows ! i ! c = (if i = c then 1 else 0))"
    using gauss_jordan_identity [OF run _ aug(1) len0] by simp
  text \<open>Every row \<open>a @ b\<close> of the elimination satisfies \<open>a = b A\<close>.\<close>
  let ?P = "\<lambda>r. take n r = vec_mat n (drop n r) A"
  have addP: "\<And>u v. length u = n + n \<Longrightarrow> length v = n + n \<Longrightarrow> ?P u \<Longrightarrow> ?P v \<Longrightarrow> ?P (vadd u v)"
    by (simp add: take_vadd drop_vadd vec_mat_vadd)
  have scaleP: "\<And>c u. length u = n + n \<Longrightarrow> ?P u \<Longrightarrow> ?P (smul c u)"
    by (simp add: take_smul drop_smul vec_mat_smul)
  have init: "\<forall>r\<in>set [] \<union> set ?todo. length r = n + n \<and> ?P r"
  proof
    fix r assume "r \<in> set [] \<union> set ?todo"
    then obtain i where i: "i < n" "r = ?todo ! i" using aug(1) by (auto simp: in_set_conv_nth)
    then have r: "r = A ! i @ unit_vec n i" using aug(2) by simp
    have "length (A ! i) = n" using A i by (simp add: shapeD)
    then show "length r = n + n \<and> ?P r" using r i A by (simp add: vec_mat_unit_vec)
  qed
  have fin: "\<forall>r\<in>set rows. length r = n + n \<and> ?P r"
    by (rule gauss_jordan_preserves [where P = ?P, OF addP scaleP run init])
  have rowi: "take n (rows ! i) = unit_vec n i" if "i < n" for i
  proof (rule nth_equalityI)
    have "rows ! i \<in> set rows" using that idn by simp
    then have l: "length (rows ! i) = n + n" using fin by blast
    then show "length (take n (rows ! i)) = length (unit_vec n i)" by simp
    fix c assume "c < length (take n (rows ! i))"
    then have "c < n" by simp
    then show "take n (rows ! i) ! c = unit_vec n i ! c" using idn that by auto
  qed
  show sB: "shape n n B"
    unfolding shape_def Bdef using idn fin by auto
  show "matmul n B A = identity n"
  proof (rule nth_equalityI)
    show "length (matmul n B A) = length (identity n)" using sB by (simp add: shapeD)
    fix i assume "i < length (matmul n B A)"
    then have i: "i < n" using sB by (simp add: shapeD)
    then have mem: "rows ! i \<in> set rows" using idn by simp
    have "matmul n B A ! i = vec_mat n (drop n (rows ! i)) A"
      using i idn by (simp add: matmul_vec_mat Bdef)
    also have "\<dots> = take n (rows ! i)" using fin mem by auto
    also have "\<dots> = identity n ! i" using i rowi by simp
    finally show "matmul n B A ! i = identity n ! i" .
  qed
  text \<open>Every row \<open>a @ b\<close> also satisfies \<open>a B = b\<close>, since the rows of the result do.\<close>
  let ?Q = "\<lambda>r. vec_mat n (take n r) B = drop n r"
  have addQ: "\<And>u v. length u = n + n \<Longrightarrow> length v = n + n \<Longrightarrow> ?Q u \<Longrightarrow> ?Q v \<Longrightarrow> ?Q (vadd u v)"
    by (simp add: take_vadd drop_vadd vec_mat_vadd)
  have scaleQ: "\<And>c u. length u = n + n \<Longrightarrow> ?Q u \<Longrightarrow> ?Q (smul c u)"
    by (simp add: take_smul drop_smul vec_mat_smul)
  have finQ: "\<forall>r\<in>set rows. ?Q r"
  proof
    fix r assume "r \<in> set rows"
    then obtain i where i: "i < n" "r = rows ! i" using idn by (auto simp: in_set_conv_nth)
    have "vec_mat n (take n r) B = B ! i" using i rowi sB by (simp add: vec_mat_unit_vec)
    also have "\<dots> = drop n r" using i idn by (simp add: Bdef)
    finally show "?Q r" .
  qed
  have initQ: "\<forall>r\<in>set [] \<union> set ?todo. ?Q r"
    by (rule gauss_jordan_reflects [where P = ?Q, OF addQ scaleQ run aug(1) len0 finQ])
  show "matmul n A B = identity n"
  proof (rule nth_equalityI)
    show "length (matmul n A B) = length (identity n)" using A by (simp add: shapeD)
    fix i assume "i < length (matmul n A B)"
    then have i: "i < n" using A by (simp add: shapeD)
    have mem: "?todo ! i \<in> set ?todo" by (rule nth_mem) (use aug(1) i in simp)
    have li: "length (A ! i) = n" using A i by (simp add: shapeD)
    have "?Q (?todo ! i)" using initQ mem by blast
    then have "?Q (A ! i @ unit_vec n i)" by (simp only: aug(2) [OF i])
    then have "vec_mat n (A ! i) B = unit_vec n i" using li by simp
    then show "matmul n A B ! i = identity n ! i"
      using i A by (simp add: matmul_vec_mat shapeD)
  qed
qed


theorem linalg_inv_complete:
  assumes A: "shape n n A" and C: "shape n n C" and CA: "matmul n C A = identity n"
  shows "\<exists>B. linalg_inv A = Inr B"
proof (cases "gauss_jordan n 0 [] (map2 (@) A (identity n))")
  case (Some rows)
  have n: "length A = n" using A by (simp add: shapeD)
  have "square A" using A n by (simp add: square_shape)
  then show ?thesis using Some n by (simp add: linalg_inv_def)
next
  case None
  let ?todo = "map2 (@) A (identity n)"
  note aug = augmented_rows [OF A]
  have len0: "\<forall>r\<in>set [] \<union> set ?todo. length r = n + n" using aug(3) by simp
  have "\<exists>v. length v = n \<and> (\<exists>c<n. v ! c \<noteq> 0) \<and> (\<forall>r\<in>set [] \<union> set ?todo. dot (take n r) v = 0)"
    using gauss_jordan_None [OF None _ aug(1) len0, of n] by simp
  then obtain v c where v: "length v = n" and c: "c < n" "v ! c \<noteq> 0"
    and ker: "\<forall>r\<in>set ?todo. dot (take n r) v = 0" by auto
  have Av: "dot (A ! l) v = 0" if l: "l < n" for l
  proof -
    have mem: "?todo ! l \<in> set ?todo" by (rule nth_mem) (use aug(1) l in simp)
    have "dot (take n (?todo ! l)) v = 0" using ker mem by blast
    then have "dot (take n (A ! l @ unit_vec n l)) v = 0" by (simp only: aug(2) [OF l])
    then show ?thesis using A l by (simp add: shapeD)
  qed
  have lA: "length A = n" "\<And>l. l < n \<Longrightarrow> length (A ! l) = n" using A by (auto simp: shapeD)
  have lC: "length C = n" "length (C ! c) = n" using C c by (auto simp: shapeD)
  have "v ! c = dot (unit_vec n c) v" using c v by (simp add: dot_unit_vec)
  also have "\<dots> = dot (matmul n C A ! c) v" using c by (simp add: CA)
  also have "\<dots> = (\<Sum>k<n. (\<Sum>l<n. C ! c ! l * A ! l ! k) * v ! k)"
    using c v lA lC by (simp add: dot_sum nth_matmul)
  also have "\<dots> = (\<Sum>k<n. \<Sum>l<n. C ! c ! l * (A ! l ! k * v ! k))"
    by (simp add: sum_distrib_right mult.assoc)
  also have "\<dots> = (\<Sum>l<n. \<Sum>k<n. C ! c ! l * (A ! l ! k * v ! k))"
    by (rule sum.swap)
  also have "\<dots> = (\<Sum>l<n. C ! c ! l * dot (A ! l) v)"
    using v lA by (simp add: dot_sum sum_distrib_left)
  also have "\<dots> = 0" using Av by simp
  finally show ?thesis using c by simp
qed

theorem linalg_inv_unique:
  assumes A: "shape n n A" and C: "shape n n C" and CA: "matmul n C A = identity n"
  shows "linalg_inv A = Inr C"
proof -
  from linalg_inv_complete [OF A C CA] obtain B where B: "linalg_inv A = Inr B" ..
  note s = linalg_inv_sound [OF A B]
  have "C = matmul n C (identity n)" using C by (simp add: matmul_identity_right)
  also have "\<dots> = matmul n C (matmul n A B)" by (simp add: s(3))
  also have "\<dots> = matmul n (matmul n C A) B" using C A s(1) by (simp add: matmul_assoc)
  also have "\<dots> = B" using s(1) by (simp add: CA matmul_identity_left)
  finally show ?thesis using B by simp
qed

lemma linalg_inv_not_square: "\<not> square A \<Longrightarrow> linalg_inv A = Inl LinAlgError"
  by (simp add: linalg_inv_def)

lemma linalg_inv_error: "linalg_inv A = Inl e \<Longrightarrow> e = LinAlgError"
  by (auto simp: linalg_inv_def split: if_splits option.splits)

text \<open>The inverse fails exactly on the matrices that are not square or have no inverse.\<close>

theorem linalg_inv_fails_iff:
  "linalg_inv A = Inl LinAlgError \<longleftrightarrow>
     \<not> square A \<or> \<not> (\<exists>C. shape (length A) (length A) C \<and> matmul (length A) C A = identity (length A))"
proof (cases "square A")
  case False
  then show ?thesis by (simp add: linalg_inv_not_square)
next
  case True
  then have A: "shape (length A) (length A) A" by (simp add: square_shape)
  show ?thesis
  proof (cases "linalg_inv A")
    case (Inl e)
    then have "\<not> (\<exists>C. shape (length A) (length A) C \<and> matmul (length A) C A = identity (length A))"
      using linalg_inv_unique [OF A] by auto
    then show ?thesis using Inl linalg_inv_error [OF Inl] by simp
  next
    case (Inr B)
    then show ?thesis using linalg_inv_sound [OF A Inr] True by auto
  qed
qed

section \<open>Evaluation\<close>

lemmas array_defs = cols_def argwhere_pos_def rows_at_def hcat_def ones_def transpose_m_def
  matmul_def col_def dot_def madd_def msub_def emul_def mscale_def mneg_def mexp_def mlog_def
  mabs_def msub_scalar_def amax_def first_gt_def

lemmas inverse_defs = linalg_inv_def square_def identity_def unit_vec_def eliminate_def
  vadd_def smul_def

lemmas design_defs = vLNrweight_def design_X_def design_Z_def design_X_reduced_def mdata0_def
  vloc_def vrweight_def

lemmas table_even_defs = table_even_def row_base_def row_me_def row_char_def vb_even_def

lemma vb_linearIV_table_even: "vb_linearIV table_even = Inr vb_even"
  by (simp add: vb_linearIV_def vb_linearIV_unconstrained_def table_even_defs design_defs
      array_defs inverse_defs upt_conv_Cons Let_def)

lemma vb_nonlinearIV_table_even: "vb_nonlinearIV table_even vb_even = Some (Inr vb_even)"
  apply (simp add: vb_nonlinearIV_def nonlinear_unconstrained_def)
  apply (subst iterate.simps)
  apply (simp add: update_unconstrained_def increment_unconstrained_def table_even_defs design_defs array_defs inverse_defs
      upt_conv_Cons Let_def exp_minus ln_div)
  apply (subst iterate.simps)
  apply (simp add: array_defs)
  done

section \<open>The loop\<close>

lemma length_column [simp]: "length (column v) = length v"
  by (simp add: column_def)

lemma nth_column [simp]: "i < length v \<Longrightarrow> column v ! i = [v ! i]"
  by (simp add: column_def)

lemma column_inject [simp]: "column u = column v \<longleftrightarrow> u = v"
  by (auto simp: column_def inj_on_def dest!: map_inj_on [rotated])

lemma col_column [simp]: "col 0 (column v) = v"
  by (simp add: col_def column_def comp_def)

lemma shape_column: "shape (length v) 1 (column v)"
  by (auto simp: shape_def column_def)

lemma msub_column: "msub (column u) (column v) = column (map2 (-) u v)"
  by (simp add: msub_def column_def zip_map_map map_zip_map map_zip_map2 split_def)

lemma madd_column: "madd (column u) (column v) = column (vadd u v)"
  by (simp add: madd_def vadd_def column_def zip_map_map split_def)

lemma mabs_column: "mabs (column u) = column (map abs u)"
  by (simp add: mabs_def column_def)

lemma concat_column [simp]: "concat (column v) = v"
  by (induction v) (simp_all add: column_def)

lemma amax_column:
  "v \<noteq> [] \<Longrightarrow> amax (column v) = Inr (Max (set v))"
  by (cases v) (simp_all add: amax_def Max.set_eq_fold [symmetric])

lemma amax_change:
  assumes "length b = length b'" "b \<noteq> []"
  shows "amax (mabs (msub (column b) (column b'))) = Inr (max_change b b')"
proof -
  have "map abs (map2 (-) b b') = map2 (\<lambda>x y. \<bar>x - y\<bar>) b b'"
    by (simp add: split_def)
  moreover have "map2 (\<lambda>x y. \<bar>x - y\<bar>) b b' \<noteq> []" using assms by (cases b; cases b') auto
  ultimately show ?thesis
    by (simp add: msub_column mabs_column amax_column max_change_def)
qed


lemma iterate_stop: "\<not> 1/10000 < d \<Longrightarrow> iterate update d vb = Some (Inr vb)"
  by (subst iterate.simps) simp

lemma iterate_pass:
  "1/10000 < d \<Longrightarrow> update vb = Inr vb' \<Longrightarrow> amax (mabs (msub vb vb')) = Inr d' \<Longrightarrow>
   iterate update d vb = iterate update d' vb'"
  by (subst iterate.simps) simp

lemma iterate_raise:
  "1/10000 < d \<Longrightarrow> update vb = Inl e \<Longrightarrow> iterate update d vb = Some (Inl e)"
  by (subst iterate.simps) simp

lemma run_of_shift: "run_of upd b (Suc n) \<Longrightarrow> run_of upd (\<lambda>j. b (Suc j)) n"
  unfolding run_of_def by (metis Suc_le_mono Suc_less_eq)

lemma run_of_first:
  "run_of upd b n \<Longrightarrow> upd (b 0) = Inr (b 1)"
  "run_of upd b (Suc n) \<Longrightarrow> 1/10000 < max_change (b 0) (b 1)"
  "run_of upd b 0 \<Longrightarrow> \<not> 1/10000 < max_change (b 0) (b 1)"
  by (auto simp: run_of_def)

lemma run_of_Cons:
  assumes "upd x = Inr (b 0)" "1/10000 < max_change x (b 0)" "run_of upd b n"
  shows "run_of upd (\<lambda>j. case j of 0 \<Rightarrow> x | Suc i \<Rightarrow> b i) (Suc n)"
  unfolding run_of_def
proof (intro conjI allI impI)
  fix j assume "j \<le> Suc n"
  then show "upd (case j of 0 \<Rightarrow> x | Suc i \<Rightarrow> b i) = Inr (case Suc j of 0 \<Rightarrow> x | Suc i \<Rightarrow> b i)"
    using assms by (cases j) (auto simp: run_of_def)
next
  fix j assume "j < Suc n"
  then show "1/10000 < max_change (case j of 0 \<Rightarrow> x | Suc i \<Rightarrow> b i) (case Suc j of 0 \<Rightarrow> x | Suc i \<Rightarrow> b i)"
    using assms by (cases j) (auto simp: run_of_def)
next
  show "max_change (case Suc n of 0 \<Rightarrow> x | Suc i \<Rightarrow> b i) (case Suc (Suc n) of 0 \<Rightarrow> x | Suc i \<Rightarrow> b i) \<le> 1/10000"
    using assms by (auto simp: run_of_def)
qed

lemma run_of_single:
  assumes "upd x = Inr y" "max_change x y \<le> 1/10000"
  shows "run_of upd (\<lambda>j. case j of 0 \<Rightarrow> x | Suc i \<Rightarrow> y) 0"
  using assms by (simp add: run_of_def)

lemma iterate_run_backward:
  assumes sim: "\<And>\<beta>. length \<beta> = k \<Longrightarrow> update (column \<beta>) = map_sum id column (upd \<beta>)"
    and len: "\<And>\<beta> \<beta>'. length \<beta> = k \<Longrightarrow> upd \<beta> = Inr \<beta>' \<Longrightarrow> length \<beta>' = k"
    and k: "0 < k"
  shows "run_of upd b n \<Longrightarrow> length (b 0) = k \<Longrightarrow> 1/10000 < d \<Longrightarrow>
         iterate update d (column (b 0)) = Some (Inr (column (b (Suc n))))"
proof (induction n arbitrary: b d)
  case 0
  have u: "upd (b 0) = Inr (b 1)" using "0.prems"(1) by (rule run_of_first)
  have l1: "length (b 1) = k" using len [OF "0.prems"(2) u] .
  have "update (column (b 0)) = Inr (column (b 1))" using sim [OF "0.prems"(2)] u by simp
  moreover have "amax (mabs (msub (column (b 0)) (column (b 1)))) = Inr (max_change (b 0) (b 1))"
    using "0.prems"(2) l1 k by (intro amax_change) auto
  ultimately have "iterate update d (column (b 0)) = iterate update (max_change (b 0) (b 1)) (column (b 1))"
    using "0.prems"(3) by (intro iterate_pass)
  then show ?case using run_of_first(3) [OF "0.prems"(1)] by (simp add: iterate_stop)
next
  case (Suc n)
  have u: "upd (b 0) = Inr (b 1)" using Suc.prems(1) by (rule run_of_first)
  have l1: "length (b 1) = k" using len [OF Suc.prems(2) u] .
  have "update (column (b 0)) = Inr (column (b 1))" using sim [OF Suc.prems(2)] u by simp
  moreover have "amax (mabs (msub (column (b 0)) (column (b 1)))) = Inr (max_change (b 0) (b 1))"
    using Suc.prems(2) l1 k by (intro amax_change) auto
  ultimately have "iterate update d (column (b 0)) = iterate update (max_change (b 0) (b 1)) (column (b 1))"
    using Suc.prems(3) by (intro iterate_pass)
  also have "\<dots> = Some (Inr (column (b (Suc (Suc n)))))"
    using Suc.IH [of "\<lambda>j. b (Suc j)" "max_change (b 0) (b 1)"] run_of_shift [OF Suc.prems(1)]
      run_of_first(2) [OF Suc.prems(1)] l1 by simp
  finally show ?case .
qed

lemma iterate_run_forward:
  assumes sim: "\<And>\<beta>. length \<beta> = k \<Longrightarrow> update (column \<beta>) = map_sum id column (upd \<beta>)"
    and len: "\<And>\<beta> \<beta>'. length \<beta> = k \<Longrightarrow> upd \<beta> = Inr \<beta>' \<Longrightarrow> length \<beta>' = k"
    and k: "0 < k"
    and run: "iterate update d vb = Some y"
  shows "\<forall>\<beta> r. vb = column \<beta> \<and> length \<beta> = k \<and> y = Inr r \<longrightarrow>
           (if 1/10000 < d then \<exists>n b. b 0 = \<beta> \<and> r = column (b (Suc n)) \<and> run_of upd b n
            else r = column \<beta>)"
proof -
  let ?P = "\<lambda>u d vb y. u = update \<longrightarrow> (\<forall>\<beta> r. vb = column \<beta> \<and> length \<beta> = k \<and> y = Inr r \<longrightarrow>
           (if 1/10000 < d then \<exists>n b. b 0 = \<beta> \<and> r = column (b (Suc n)) \<and> run_of upd b n
            else r = column \<beta>))"
  have "?P update d vb y"
  proof (rule iterate.raw_induct [where P = ?P, OF _ run], intro impI allI)
    fix it u and d :: real and vb y \<beta> r
    assume IH: "\<And>u d vb y. it u d vb = Some y \<Longrightarrow> ?P u d vb y"
      and body: "(if 1/10000 < d then
                    (case u vb of Inl e \<Rightarrow> Some (Inl e)
                     | Inr vb_new \<Rightarrow> (case amax (mabs (msub vb vb_new)) of Inl e \<Rightarrow> Some (Inl e)
                                      | Inr d \<Rightarrow> it u d vb_new))
                  else Some (Inr vb)) = Some y"
      and u: "u = update" and v: "vb = column \<beta> \<and> length \<beta> = k \<and> y = Inr r"
    show "if 1/10000 < d then \<exists>n b. b 0 = \<beta> \<and> r = column (b (Suc n)) \<and> run_of upd b n
          else r = column \<beta>"
    proof (cases "1/10000 < d")
      case False
      with body v show ?thesis by simp
    next
      case True
      from v have lb: "length \<beta> = k" by simp
      from True body v u sim [OF lb] obtain \<beta>' where up: "upd \<beta> = Inr \<beta>'"
        by (cases "upd \<beta>") auto
      have l': "length \<beta>' = k" using len [OF lb up] .
      have un: "update (column \<beta>) = Inr (column \<beta>')" using sim [OF lb] up by simp
      have am: "amax (mabs (msub (column \<beta>) (column \<beta>'))) = Inr (max_change \<beta> \<beta>')"
        using lb l' k by (intro amax_change) auto
      from True body v u un am have rec: "it update (max_change \<beta> \<beta>') (column \<beta>') = Some (Inr r)"
        by simp
      from IH [OF rec] l' have res:
        "if 1/10000 < max_change \<beta> \<beta>' then \<exists>n b. b 0 = \<beta>' \<and> r = column (b (Suc n)) \<and> run_of upd b n
         else r = column \<beta>'" by simp
      show ?thesis
      proof (cases "1/10000 < max_change \<beta> \<beta>'")
        case False
        with res have r: "r = column \<beta>'" by simp
        have "run_of upd (\<lambda>j. case j of 0 \<Rightarrow> \<beta> | Suc i \<Rightarrow> \<beta>') 0"
          using up False by (intro run_of_single) auto
        then have "\<exists>n b. b 0 = \<beta> \<and> r = column (b (Suc n)) \<and> run_of upd b n" using r
          by (intro exI [of _ 0] exI [of _ "\<lambda>j. case j of 0 \<Rightarrow> \<beta> | Suc i \<Rightarrow> \<beta>'"]) simp
        then show ?thesis using True by simp
      next
        case mc: True
        with res obtain n b where b: "b 0 = \<beta>'" "r = column (b (Suc n))" "run_of upd b n" by auto
        have "run_of upd (\<lambda>j. case j of 0 \<Rightarrow> \<beta> | Suc i \<Rightarrow> b i) (Suc n)"
          using up mc b by (intro run_of_Cons) auto
        then have "\<exists>n b. b 0 = \<beta> \<and> r = column (b (Suc n)) \<and> run_of upd b n" using b
          by (intro exI [of _ "Suc n"] exI [of _ "\<lambda>j. case j of 0 \<Rightarrow> \<beta> | Suc i \<Rightarrow> b i"]) simp
        then show ?thesis using True by simp
      qed
    qed
  qed
  then show ?thesis by simp
qed

lemma iterate_run:
  assumes sim: "\<And>\<beta>. length \<beta> = k \<Longrightarrow> update (column \<beta>) = map_sum id column (upd \<beta>)"
    and len: "\<And>\<beta> \<beta>'. length \<beta> = k \<Longrightarrow> upd \<beta> = Inr \<beta>' \<Longrightarrow> length \<beta>' = k"
    and k: "0 < k" and l: "length \<beta> = k"
  shows "iterate update 1 (column \<beta>) = Some (Inr r) \<longleftrightarrow>
         (\<exists>n b. b 0 = \<beta> \<and> r = column (b (Suc n)) \<and> run_of upd b n)"
proof
  assume "iterate update 1 (column \<beta>) = Some (Inr r)"
  from iterate_run_forward [OF sim len k this] l
  show "\<exists>n b. b 0 = \<beta> \<and> r = column (b (Suc n)) \<and> run_of upd b n" by simp
next
  assume "\<exists>n b. b 0 = \<beta> \<and> r = column (b (Suc n)) \<and> run_of upd b n"
  then obtain n b where b: "b 0 = \<beta>" "r = column (b (Suc n))" "run_of upd b n" by blast
  show "iterate update 1 (column \<beta>) = Some (Inr r)"
    using iterate_run_backward [OF sim len k b(3), where d = 1] b l by simp
qed

lemma raises_after_shift: "raises_after upd b (Suc n) e \<Longrightarrow> raises_after upd (\<lambda>j. b (Suc j)) n e"
  unfolding raises_after_def by (metis Suc_less_eq)

lemma raises_after_first:
  "raises_after upd b (Suc n) e \<Longrightarrow> upd (b 0) = Inr (b 1) \<and> 1/10000 < max_change (b 0) (b 1)"
  "raises_after upd b 0 e \<Longrightarrow> upd (b 0) = Inl e"
  by (auto simp: raises_after_def)

lemma raises_after_Cons:
  assumes "upd x = Inr (b 0)" "1/10000 < max_change x (b 0)" "raises_after upd b n e"
  shows "raises_after upd (\<lambda>j. case j of 0 \<Rightarrow> x | Suc i \<Rightarrow> b i) (Suc n) e"
  unfolding raises_after_def
proof (intro conjI allI impI)
  fix j assume "j < Suc n"
  then show "upd (case j of 0 \<Rightarrow> x | Suc i \<Rightarrow> b i) = Inr (case Suc j of 0 \<Rightarrow> x | Suc i \<Rightarrow> b i)"
    "1/10000 < max_change (case j of 0 \<Rightarrow> x | Suc i \<Rightarrow> b i) (case Suc j of 0 \<Rightarrow> x | Suc i \<Rightarrow> b i)"
    using assms by (cases j; auto simp: raises_after_def)+
next
  show "upd (case Suc n of 0 \<Rightarrow> x | Suc i \<Rightarrow> b i) = Inl e"
    using assms by (auto simp: raises_after_def)
qed

lemma iterate_raises_backward:
  assumes sim: "\<And>\<beta>. length \<beta> = k \<Longrightarrow> update (column \<beta>) = map_sum id column (upd \<beta>)"
    and len: "\<And>\<beta> \<beta>'. length \<beta> = k \<Longrightarrow> upd \<beta> = Inr \<beta>' \<Longrightarrow> length \<beta>' = k"
    and k: "0 < k"
  shows "raises_after upd b n e \<Longrightarrow> length (b 0) = k \<Longrightarrow> 1/10000 < d \<Longrightarrow>
         iterate update d (column (b 0)) = Some (Inl e)"
proof (induction n arbitrary: b d)
  case 0
  have "upd (b 0) = Inl e" using "0.prems"(1) by (rule raises_after_first)
  then have "update (column (b 0)) = Inl e" using sim [OF "0.prems"(2)] by simp
  then show ?case using "0.prems"(3) by (rule iterate_raise [rotated])
next
  case (Suc n)
  have u: "upd (b 0) = Inr (b 1)" and c: "1/10000 < max_change (b 0) (b 1)"
    using raises_after_first(1) [OF Suc.prems(1)] by simp_all
  have l1: "length (b 1) = k" using len [OF Suc.prems(2) u] .
  have "update (column (b 0)) = Inr (column (b 1))" using sim [OF Suc.prems(2)] u by simp
  moreover have "amax (mabs (msub (column (b 0)) (column (b 1)))) = Inr (max_change (b 0) (b 1))"
    using Suc.prems(2) l1 k by (intro amax_change) auto
  ultimately have "iterate update d (column (b 0)) = iterate update (max_change (b 0) (b 1)) (column (b 1))"
    using Suc.prems(3) by (intro iterate_pass)
  also have "\<dots> = Some (Inl e)"
    using Suc.IH [of "\<lambda>j. b (Suc j)" "max_change (b 0) (b 1)"] raises_after_shift [OF Suc.prems(1)]
      c l1 by simp
  finally show ?case .
qed

lemma iterate_raises_forward:
  assumes sim: "\<And>\<beta>. length \<beta> = k \<Longrightarrow> update (column \<beta>) = map_sum id column (upd \<beta>)"
    and len: "\<And>\<beta> \<beta>'. length \<beta> = k \<Longrightarrow> upd \<beta> = Inr \<beta>' \<Longrightarrow> length \<beta>' = k"
    and k: "0 < k"
    and run: "iterate update d vb = Some y"
  shows "\<forall>\<beta> e. vb = column \<beta> \<and> length \<beta> = k \<and> y = Inl e \<longrightarrow>
           1/10000 < d \<and> (\<exists>n b. b 0 = \<beta> \<and> raises_after upd b n e)"
proof -
  let ?P = "\<lambda>u d vb y. u = update \<longrightarrow> (\<forall>\<beta> e. vb = column \<beta> \<and> length \<beta> = k \<and> y = Inl e \<longrightarrow>
           1/10000 < d \<and> (\<exists>n b. b 0 = \<beta> \<and> raises_after upd b n e))"
  have "?P update d vb y"
  proof (rule iterate.raw_induct [where P = ?P, OF _ run], intro impI allI)
    fix it u and d :: real and vb y \<beta> e
    assume IH: "\<And>u d vb y. it u d vb = Some y \<Longrightarrow> ?P u d vb y"
      and body: "(if 1/10000 < d then
                    (case u vb of Inl e \<Rightarrow> Some (Inl e)
                     | Inr vb_new \<Rightarrow> (case amax (mabs (msub vb vb_new)) of Inl e \<Rightarrow> Some (Inl e)
                                      | Inr d \<Rightarrow> it u d vb_new))
                  else Some (Inr vb)) = Some y"
      and u: "u = update" and v: "vb = column \<beta> \<and> length \<beta> = k \<and> y = Inl e"
    from body v have d: "1/10000 < d" by (auto split: if_splits)
    from v have lb: "length \<beta> = k" by simp
    have "\<exists>n b. b 0 = \<beta> \<and> raises_after upd b n e"
    proof (cases "upd \<beta>")
      case (Inl e')
      then have "update (column \<beta>) = Inl e'" using sim [OF lb] by simp
      with body d u v have "e' = e" by simp
      then have "raises_after upd (\<lambda>j. \<beta>) 0 e" using Inl by (simp add: raises_after_def)
      then show ?thesis by (intro exI [of _ 0] exI [of _ "\<lambda>j. \<beta>"]) simp
    next
      case (Inr \<beta>')
      have l': "length \<beta>' = k" using len [OF lb Inr] .
      have un: "update (column \<beta>) = Inr (column \<beta>')" using sim [OF lb] Inr by simp
      have am: "amax (mabs (msub (column \<beta>) (column \<beta>'))) = Inr (max_change \<beta> \<beta>')"
        using lb l' k by (intro amax_change) auto
      from d body v u un am have rec: "it update (max_change \<beta> \<beta>') (column \<beta>') = Some (Inl e)"
        by simp
      from IH [OF rec] l' obtain n b where mc: "1/10000 < max_change \<beta> \<beta>'"
        and b: "b 0 = \<beta>'" "raises_after upd b n e" by auto
      have "raises_after upd (\<lambda>j. case j of 0 \<Rightarrow> \<beta> | Suc i \<Rightarrow> b i) (Suc n) e"
        using Inr mc b by (intro raises_after_Cons) auto
      then show ?thesis
        by (intro exI [of _ "Suc n"] exI [of _ "\<lambda>j. case j of 0 \<Rightarrow> \<beta> | Suc i \<Rightarrow> b i"]) simp
    qed
    with d show "1/10000 < d \<and> (\<exists>n b. b 0 = \<beta> \<and> raises_after upd b n e)" by simp
  qed
  then show ?thesis by blast
qed

lemma iterate_raises:
  assumes sim: "\<And>\<beta>. length \<beta> = k \<Longrightarrow> update (column \<beta>) = map_sum id column (upd \<beta>)"
    and len: "\<And>\<beta> \<beta>'. length \<beta> = k \<Longrightarrow> upd \<beta> = Inr \<beta>' \<Longrightarrow> length \<beta>' = k"
    and k: "0 < k" and l: "length \<beta> = k"
  shows "iterate update 1 (column \<beta>) = Some (Inl e) \<longleftrightarrow> (\<exists>n b. b 0 = \<beta> \<and> raises_after upd b n e)"
proof
  assume "iterate update 1 (column \<beta>) = Some (Inl e)"
  from iterate_raises_forward [OF sim len k this] l
  show "\<exists>n b. b 0 = \<beta> \<and> raises_after upd b n e" by simp
next
  assume "\<exists>n b. b 0 = \<beta> \<and> raises_after upd b n e"
  then obtain n b where b: "b 0 = \<beta>" "raises_after upd b n e" by blast
  show "iterate update 1 (column \<beta>) = Some (Inl e)"
    using iterate_raises_backward [OF sim len k b(2), where d = 1] b l by simp
qed

text \<open>The result of the loop on a column vector is a column vector of the same length.\<close>

lemma iterate_column_result:
  assumes sim: "\<And>\<beta>. length \<beta> = k \<Longrightarrow> update (column \<beta>) = map_sum id column (upd \<beta>)"
    and len: "\<And>\<beta> \<beta>'. length \<beta> = k \<Longrightarrow> upd \<beta> = Inr \<beta>' \<Longrightarrow> length \<beta>' = k"
    and k: "0 < k" and l: "length \<beta> = k"
    and run: "iterate update 1 (column \<beta>) = Some (Inr r)"
  shows "\<exists>\<beta>'. r = column \<beta>' \<and> length \<beta>' = k"
proof -
  have "iterate update 1 (column \<beta>) = Some (Inr r) \<longleftrightarrow>
        (\<exists>n b. b 0 = \<beta> \<and> r = column (b (Suc n)) \<and> run_of upd b n)"
    by (rule iterate_run [where update = update and upd = upd and k = k, OF sim len k l])
  with run obtain n b
    where b: "b 0 = \<beta>" "r = column (b (Suc n))" "run_of upd b n" by blast
  have "length (b j) = k" if "j \<le> Suc n" for j
    using that
  proof (induction j)
    case 0
    then show ?case using b l by simp
  next
    case (Suc j)
    then have "upd (b j) = Inr (b (Suc j))" using b(3) by (simp add: run_of_def)
    then show ?case using len Suc by simp
  qed
  then show ?thesis using b by blast
qed

section \<open>The code against the specification\<close>

lemma list10:
  assumes "length r = 10"
  obtains a b c d e f g h i j where "r = [a, b, c, d, e, f, g, h, i, j::'a]"
proof -
  from assms show thesis
    by (auto simp: length_Suc_conv eval_nat_numeral intro: that)
qed

lemma row_slices:
  assumes "length r = 10"
  shows "take (Suc 0) (drop 2 r) = [weight (observation_of r)]"
    and "take (Suc 0) (drop 8 r) = [log_market_value (observation_of r)]"
    and "take (Suc 0) (drop 9 r) = [log_market_value_instrument (observation_of r)]"
    and "take 5 (drop 3 r) = characteristics (observation_of r)"
    and "drop 9 r = [log_market_value_instrument (observation_of r)]"
  using assms by (auto elim!: list10 simp: observation_of_def)

lemma cols_weight: "table m \<Longrightarrow> cols 2 3 m = column (map (weight \<circ> observation_of) m)"
  by (auto simp: cols_def column_def table_def row_slices)

lemma cols_me: "table m \<Longrightarrow> cols 8 9 m = column (map (log_market_value \<circ> observation_of) m)"
  by (auto simp: cols_def column_def table_def row_slices)

lemma design_X_rows: "table m \<Longrightarrow> design_X m = map (x_row \<circ> observation_of) m"
  by (induction m)
    (simp_all add: design_X_def cols_def hcat_def ones_def table_def row_slices x_row_def)

lemma design_Z_rows: "table m \<Longrightarrow> design_Z m = map (z_row \<circ> observation_of) m"
  by (induction m)
    (simp_all add: design_Z_def cols_def hcat_def ones_def table_def row_slices z_row_def)

lemma design_X_reduced_rows:
  "table m \<Longrightarrow> design_X_reduced m = map (x_reduced_row \<circ> observation_of) m"
  by (induction m)
    (simp_all add: design_X_reduced_def cols_def hcat_def ones_def table_def row_slices
      x_reduced_row_def)

lemma length_rows:
  "length r = 10 \<Longrightarrow> length (x_row (observation_of r)) = 7"
  "length r = 10 \<Longrightarrow> length (z_row (observation_of r)) = 7"
  "length r = 10 \<Longrightarrow> length (x_reduced_row (observation_of r)) = 6"
  by (simp_all add: x_row_def z_row_def x_reduced_row_def observation_of_def)

text \<open>Selecting the rows at the indices of the positive weights keeps those rows.\<close>

lemma rows_at_filter:
  "rows_at (filter (\<lambda>i. P (M ! i)) [0..<length M]) M = filter P M"
proof -
  have "filter P M = filter P (map ((!) M) [0..<length M])" by (simp add: map_nth)
  also have "\<dots> = map ((!) M) (filter (P \<circ> (!) M) [0..<length M])" by (simp add: filter_map)
  finally show ?thesis by (simp add: rows_at_def comp_def)
qed

lemma vloc_filter:
  assumes "table m"
  shows "vloc m = filter (\<lambda>i. 0 < weight (observation_of (m ! i))) [0..<length m]"
  unfolding vloc_def argwhere_pos_def vrweight_def
proof (simp add: cols_weight [OF assms], rule filter_cong [OF refl])
  fix i assume "i \<in> set [0..<length m]"
  then show "(case column (map (weight \<circ> observation_of) m) ! i of [] \<Rightarrow> False | [w] \<Rightarrow> 0 < w | w # a # t \<Rightarrow> False)
     = (0 < weight (observation_of (m ! i)))" by simp
qed

lemma mdata0_filter:
  "table m \<Longrightarrow> mdata0 m = filter (\<lambda>r. 0 < weight (observation_of r)) m"
  unfolding mdata0_def
  by (simp add: vloc_filter rows_at_filter [where P = "\<lambda>r. 0 < weight (observation_of r)"])

lemma table_mdata0: "table m \<Longrightarrow> table (mdata0 m)"
  by (simp add: mdata0_filter) (simp add: table_def)

lemma retained_mdata0:
  "table m \<Longrightarrow> map observation_of (mdata0 m) = retained (map observation_of m)"
  by (simp add: mdata0_filter retained_def filter_map comp_def)

lemma vLNrweight_column:
  "table m \<Longrightarrow> vLNrweight m = column (log_weights (retained (map observation_of m)))"
proof -
  assume t: "table m"
  have "rows_at (vloc m) (vrweight m) = cols 2 3 (mdata0 m)"
    by (simp add: rows_at_def vrweight_def mdata0_def cols_def vloc_def argwhere_pos_def)
  then show ?thesis
    using t by (simp add: vLNrweight_def cols_weight table_mdata0 retained_mdata0 [symmetric]
        mlog_def column_def log_weights_def comp_def)
qed


subsection \<open>Products with vectors\<close>

lemma length_transpose_m [simp]: "length (transpose_m k M) = k"
  by (simp add: transpose_m_def)

lemma shape_transpose_m: "shape k (length M) (transpose_m k M)"
  by (auto simp: shape_def transpose_m_def)

lemma length_mat_vec [simp]: "length (mat_vec A v) = length A"
  by (simp add: mat_vec_def)

lemma matmul_column [simp]: "matmul (Suc 0) A (column v) = column (mat_vec A v)"
  by (simp add: matmul_def column_def mat_vec_def comp_def col_def)

lemma mat_vec_assoc:
  assumes M: "shape p n M" and A: "shape n m A" and v: "length v = m"
  shows "mat_vec (matmul m M A) v = mat_vec M (mat_vec A v)"
proof -
  have "shape m 1 (column v)" using shape_column [of v] v by simp
  from matmul_assoc [OF M A this]
  have "column (mat_vec (matmul m M A) v) = column (mat_vec M (mat_vec A v))"
    by simp
  then show ?thesis by simp
qed

lemma dot_uminus: "dot (map uminus x) v = - dot x v"
  by (simp add: dot_sum sum_negf)

lemma emul_column: "emul (column u) (column v) = column (map2 (*) u v)"
  by (simp add: emul_def column_def zip_map_map split_def)

lemma mexp_column: "mexp (column v) = column (map exp v)"
  by (simp add: mexp_def column_def)

lemma msub_scalar_column: "msub_scalar (column v) c = column (map (\<lambda>x. x - c) v)"
  by (simp add: msub_scalar_def column_def)

lemma mscale_column: "mscale c (column v) = column (map ((*) c) v)"
  by (simp add: mscale_def column_def)

lemma mat_vec_mneg: "mat_vec (mneg A) v = map uminus (mat_vec A v)"
  by (simp add: mat_vec_def mneg_def dot_uminus)

lemma spread_row: "matmul k (column l) (ones (Suc 0) k) = map (\<lambda>x. replicate k x) l"
proof -
  have "map (\<lambda>j. dot [x] (col j (ones 1 k))) [0..<k] = replicate k x" for x
    by (rule nth_equalityI) (simp_all add: dot_def col_def ones_def)
  then show ?thesis by (simp add: matmul_def column_def comp_def)
qed

lemma emul_spread:
  assumes "\<forall>r\<in>set Z. length r = k"
  shows "emul (map (\<lambda>x. replicate k x) l) Z = scale_rows l Z"
proof -
  have "map2 (*) (replicate k x) r = smul x r" if "length r = k" for x r
    using that by (intro nth_equalityI) (simp_all add: smul_def)
  then have "\<forall>(x, r)\<in>set (zip l Z). map2 (*) (replicate k x) r = smul x r"
    using assms by (auto dest: set_zip_rightD)
  then show ?thesis
    by (auto simp: emul_def scale_rows_def zip_map1 intro!: map_cong)
qed


subsection \<open>The updates\<close>

lemma cross_shape: "shape k k (matmul k (transpose_m k A) B)"
  by (simp add: shape_matmul)

lemma table_observations:
  assumes "table m"
  shows "design_X m = map x_row (map observation_of m)"
    and "design_Z m = map z_row (map observation_of m)"
    and "design_X_reduced m = map x_reduced_row (map observation_of m)"
    and "vrweight m = column (map weight (map observation_of m))"
    and "cols 8 9 m = column (map log_market_value (map observation_of m))"
    and "\<forall>ob\<in>set (map observation_of m). length (characteristics ob) = 5"
  using assms
  by (simp_all add: design_X_rows design_Z_rows design_X_reduced_rows vrweight_def cols_weight
      cols_me observation_of_def)

lemma latent_column:
  "emul (column (map weight obs)) (mexp (column (mat_vec (mneg (map x_row obs)) \<beta>)))
   = column (latent obs \<beta>)"
proof -
  have "map2 (*) (map weight obs) (map exp (map uminus (mat_vec (map x_row obs) \<beta>))) = latent obs \<beta>"
    by (simp add: latent_def mat_vec_def map2_map_map comp_def)
  then show ?thesis
    by (simp add: mat_vec_mneg mexp_column emul_column)
qed

lemma scaled_rows:
  assumes "\<forall>r\<in>set Z. length r = k"
  shows "emul (matmul k (column l) (ones (Suc 0) k)) Z = scale_rows l Z"
  using assms by (simp add: spread_row emul_spread)

lemma length_design_rows:
  assumes "\<forall>ob\<in>set obs. length (characteristics ob) = 5"
  shows "\<forall>r\<in>set (map z_row obs). length r = 7"
    and "\<forall>r\<in>set (map x_row obs). length r = 7"
    and "\<forall>r\<in>set (map x_reduced_row obs). length r = 6"
  using assms by (auto simp: z_row_def x_row_def x_reduced_row_def)

lemma increment_assoc:
  assumes M: "linalg_inv (matmul k (transpose_m k A) B) = Inr M" and v: "length v = length Z"
  shows "mat_vec (matmul (length Z) M (transpose_m k Z)) v = mat_vec M (mat_vec (transpose_m k Z) v)"
proof -
  have "shape k k M" using linalg_inv_sound(1) [OF cross_shape M] .
  moreover have "shape k (length Z) (transpose_m k Z)" by (rule shape_transpose_m)
  ultimately show ?thesis using v by (intro mat_vec_assoc)
qed

lemma increment_unconstrained_observations:
  assumes c: "\<forall>ob\<in>set obs. length (characteristics ob) = 5"
  shows "increment_unconstrained 7 (map x_row obs) (map z_row obs) (column (map weight obs)) (column \<beta>) =
         (case linalg_inv (matmul 7 (transpose_m 7 (scale_rows (latent obs \<beta>) (map z_row obs))) (map x_row obs)) of
            Inl e \<Rightarrow> Inl e
          | Inr M \<Rightarrow> Inr (column (mat_vec M (mat_vec (transpose_m 7 (map z_row obs))
                                (map (\<lambda>x. x - 1) (latent obs \<beta>))))))"
proof (cases "linalg_inv (matmul 7 (transpose_m 7 (scale_rows (latent obs \<beta>) (map z_row obs))) (map x_row obs))")
  case (Inl e)
  then show ?thesis
    by (simp add: increment_unconstrained_def Let_def latent_column
        scaled_rows [OF length_design_rows(1) [OF c]])
next
  case (Inr M)
  have "length (map (\<lambda>x. x - 1) (latent obs \<beta>)) = length (map z_row obs)" by (simp add: latent_def)
  from increment_assoc [OF Inr this] Inr show ?thesis
    by (simp add: increment_unconstrained_def Let_def latent_column
        scaled_rows [OF length_design_rows(1) [OF c]] msub_scalar_column)
qed

lemma update_unconstrained_refines:
  assumes t: "table m"
  shows "update_unconstrained 7 (design_X m) (design_Z m) (vrweight m) (column \<beta>) =
         map_sum id column (gauss_newton (map observation_of m) \<beta>)"
  unfolding update_unconstrained_def table_observations(1,2,4) [OF t]
    increment_unconstrained_observations [OF table_observations(6) [OF t]] gauss_newton_def
    gauss_newton_step_def cross_latent_def
  by (simp add: madd_column split: sum.splits)

lemma gauss_newton_length:
  assumes "length \<beta> = 7" "gauss_newton obs \<beta> = Inr \<beta>'"
  shows "length \<beta>' = 7"
proof -
  from assms(2) obtain M where M: "linalg_inv (matmul 7 (transpose_m 7 (scale_rows (latent obs \<beta>) (map z_row obs))) (map x_row obs)) = Inr M"
    and b: "\<beta>' = vadd \<beta> (mat_vec M (mat_vec (transpose_m 7 (map z_row obs)) (map (\<lambda>x. x - 1) (latent obs \<beta>))))"
    by (auto simp: gauss_newton_def gauss_newton_step_def cross_latent_def split: sum.splits)
  have "shape 7 7 M" using linalg_inv_sound(1) [OF cross_shape M] .
  then show ?thesis using assms(1) b by (simp add: shapeD)
qed


lemma latent_fixed_column:
  "emul (column (map weight obs))
     (mexp (msub (mscale (- (99/100)) (column (map log_market_value obs)))
                 (column (mat_vec (map x_reduced_row obs) \<beta>))))
   = column (latent_fixed obs \<beta>)"
proof -
  have "map2 (*) (map weight obs)
          (map exp (map2 (-) (map ((*) (- (99/100))) (map log_market_value obs))
                             (mat_vec (map x_reduced_row obs) \<beta>)))
        = latent_fixed obs \<beta>"
    by (simp add: latent_fixed_def mat_vec_def map2_map_map comp_def)
  then show ?thesis
    by (simp add: mscale_column msub_column mexp_column emul_column)
qed

lemma increment_constrained_observations:
  assumes c: "\<forall>ob\<in>set obs. length (characteristics ob) = 5"
  shows "increment_constrained 6 (map x_reduced_row obs) (column (map log_market_value obs))
           (column (map weight obs)) (column \<beta>) =
         (case linalg_inv (matmul 6 (transpose_m 6 (scale_rows (latent_fixed obs \<beta>) (map x_reduced_row obs)))
                             (map x_reduced_row obs)) of
            Inl e \<Rightarrow> Inl e
          | Inr M \<Rightarrow> Inr (column (mat_vec M (mat_vec (transpose_m 6 (map x_reduced_row obs))
                                (map (\<lambda>x. x - 1) (latent_fixed obs \<beta>))))))"
proof (cases "linalg_inv (matmul 6 (transpose_m 6 (scale_rows (latent_fixed obs \<beta>) (map x_reduced_row obs)))
                             (map x_reduced_row obs))")
  case (Inl e)
  then show ?thesis
    by (simp add: increment_constrained_def Let_def latent_fixed_column
        scaled_rows [OF length_design_rows(3) [OF c]])
next
  case (Inr M)
  have "length (map (\<lambda>x. x - 1) (latent_fixed obs \<beta>)) = length (map x_reduced_row obs)"
    by (simp add: latent_fixed_def)
  from increment_assoc [OF Inr this] Inr show ?thesis
    by (simp add: increment_constrained_def Let_def latent_fixed_column
        scaled_rows [OF length_design_rows(3) [OF c]] msub_scalar_column)
qed

lemma update_constrained_refines:
  assumes t: "table m"
  shows "update_constrained 6 (design_X_reduced m) (cols 8 9 m) (vrweight m) (column \<beta>) =
         map_sum id column (gauss_newton_fixed (map observation_of m) \<beta>)"
  unfolding update_constrained_def table_observations(3,4,5) [OF t]
    increment_constrained_observations [OF table_observations(6) [OF t]] gauss_newton_fixed_def
    gauss_newton_fixed_step_def cross_latent_fixed_def
  by (simp add: madd_column split: sum.splits)

lemma gauss_newton_fixed_length:
  assumes "length \<beta> = 6" "gauss_newton_fixed obs \<beta> = Inr \<beta>'"
  shows "length \<beta>' = 6"
proof -
  from assms(2) obtain M where M: "linalg_inv (matmul 6 (transpose_m 6 (scale_rows (latent_fixed obs \<beta>) (map x_reduced_row obs))) (map x_reduced_row obs)) = Inr M"
    and b: "\<beta>' = vadd \<beta> (mat_vec M (mat_vec (transpose_m 6 (map x_reduced_row obs)) (map (\<lambda>x. x - 1) (latent_fixed obs \<beta>))))"
    by (auto simp: gauss_newton_fixed_def gauss_newton_fixed_step_def cross_latent_fixed_def
        split: sum.splits)
  have "shape 6 6 M" using linalg_inv_sound(1) [OF cross_shape M] .
  then show ?thesis using assms(1) b by (simp add: shapeD)
qed

subsection \<open>The linear estimator\<close>

lemma column_Cons: "column (x # v) = [x] # column v"
  by (simp add: column_def)

lemma vb_linearIV_unconstrained_refines:
  assumes t: "table m"
  shows "vb_linearIV_unconstrained m = map_sum id column (linear_iv_unconstrained (map observation_of m))"
proof -
  let ?R = "retained (map observation_of m)"
  note t0 = table_mdata0 [OF t]
  note ob = table_observations [OF t0, unfolded retained_mdata0 [OF t]]
  have dT: "length (cols 8 9 (mdata0 m)) = length (map z_row ?R)" by (simp add: ob(5))
  show ?thesis
  proof (cases "linalg_inv (matmul 7 (transpose_m 7 (map z_row ?R)) (map x_row ?R))")
    case (Inl e)
    then show ?thesis
      by (simp add: vb_linearIV_unconstrained_def linear_iv_unconstrained_def cross_linear_def Let_def ob(1,2))
  next
    case (Inr M)
    have "length (log_weights ?R) = length (map z_row ?R)" by (simp add: log_weights_def)
    from increment_assoc [OF Inr this] Inr show ?thesis
      by (simp add: vb_linearIV_unconstrained_def linear_iv_unconstrained_def cross_linear_def Let_def ob(1,2) dT
          vLNrweight_column [OF t])
  qed
qed

lemma vb_linearIV_constrained_refines:
  assumes t: "table m"
  shows "vb_linearIV_constrained m = map_sum id column (linear_iv_constrained (map observation_of m))"
proof -
  let ?R = "retained (map observation_of m)"
  note t0 = table_mdata0 [OF t]
  note ob = table_observations [OF t0, unfolded retained_mdata0 [OF t]]
  have dT: "length (cols 8 9 (mdata0 m)) = length (map x_reduced_row ?R)" by (simp add: ob(5))
  have y: "msub (vLNrweight m) (mscale (99/100) (cols 8 9 (mdata0 m))) = column (adjusted_log_weights ?R)"
    by (simp add: vLNrweight_column [OF t] ob(5) mscale_column msub_column log_weights_def
        adjusted_log_weights_def map2_map_map comp_def)
  show ?thesis
  proof (cases "linalg_inv (matmul 6 (transpose_m 6 (map x_reduced_row ?R)) (map x_reduced_row ?R))")
    case (Inl e)
    then show ?thesis
      by (simp add: vb_linearIV_constrained_def linear_iv_constrained_def cross_reduced_def Let_def ob(3))
  next
    case (Inr M)
    have "length (adjusted_log_weights ?R) = length (map x_reduced_row ?R)"
      by (simp add: adjusted_log_weights_def)
    from increment_assoc [OF Inr this] Inr show ?thesis
      by (simp add: vb_linearIV_constrained_def linear_iv_constrained_def cross_reduced_def Let_def ob(3) dT y
          column_Cons)
  qed
qed

lemma linear_iv_unconstrained_length:
  assumes "linear_iv_unconstrained obs = Inr \<beta>"
  shows "length \<beta> = 7"
proof -
  let ?R = "retained obs"
  from assms obtain M where M: "linalg_inv (matmul 7 (transpose_m 7 (map z_row ?R)) (map x_row ?R)) = Inr M"
    and b: "\<beta> = mat_vec M (mat_vec (transpose_m 7 (map z_row ?R)) (log_weights ?R))"
    by (auto simp: linear_iv_unconstrained_def cross_linear_def Let_def split: sum.splits)
  have "shape 7 7 M" using linalg_inv_sound(1) [OF cross_shape M] .
  then show ?thesis using b by (simp add: shapeD)
qed

lemma linear_iv_constrained_length:
  assumes "linear_iv_constrained obs = Inr \<beta>"
  shows "length \<beta> = 7 \<and> \<beta> ! 0 = 99/100"
proof -
  let ?R = "retained obs"
  from assms obtain M where M: "linalg_inv (matmul 6 (transpose_m 6 (map x_reduced_row ?R)) (map x_reduced_row ?R)) = Inr M"
    and b: "\<beta> = 99/100 # mat_vec M (mat_vec (transpose_m 6 (map x_reduced_row ?R)) (adjusted_log_weights ?R))"
    by (auto simp: linear_iv_constrained_def cross_reduced_def Let_def split: sum.splits)
  have "shape 6 6 M" using linalg_inv_sound(1) [OF cross_shape M] .
  then show ?thesis using b by (simp add: shapeD)
qed

section \<open>A table on which the iteration never stops in exact arithmetic\<close>

text \<open>
  On this table every update succeeds and raises the intercept by one, so over the reals
  the first loop makes pass after pass. The latent value of the first row is
  \<open>exp (-n) / 8\<close> after \<open>n\<close> passes: in floating point it is absorbed in the sums of the
  cross-product matrix after some passes and the inversion then raises, which a model
  without rounding does not show.
\<close>

lemma obs_div: "map x_row (map observation_of table_div) = div_X"
  "map z_row (map observation_of table_div) = div_X"
  by (simp_all add: table_div_def table_even_defs row_absent_def observation_of_def x_row_def z_row_def div_X_def upt_conv_Cons)

lemma div_cross:
  assumes "a \<noteq> 0" "b \<noteq> 0" "c1 \<noteq> 0" "c2 \<noteq> 0" "c3 \<noteq> 0" "c4 \<noteq> 0" "c5 \<noteq> 0"
  shows "linalg_inv (matmul 7 (transpose_m 7 (scale_rows [a, b, c1, c2, c3, c4, c5, 0] div_X)) div_X)
         = Inr (div_inverse [a, b, c1, c2, c3, c4, c5, 0])"
proof (rule linalg_inv_unique [where n = 7])
  show "shape 7 7 (matmul 7 (transpose_m 7 (scale_rows [a, b, c1, c2, c3, c4, c5, 0] div_X)) div_X)"
    by (rule cross_shape)
  show "shape 7 7 (div_inverse [a, b, c1, c2, c3, c4, c5, 0])"
    by (simp add: shape_def div_inverse_def Let_def)
  show "matmul 7 (div_inverse [a, b, c1, c2, c3, c4, c5, 0])
     (matmul 7 (transpose_m 7 (scale_rows [a, b, c1, c2, c3, c4, c5, 0] div_X)) div_X) = identity 7"
    using assms
    by (simp add: div_inverse_def Let_def div_X_def scale_rows_def smul_def transpose_m_def col_def
        matmul_def dot_def identity_def unit_vec_def upt_conv_Cons field_simps)
qed


lemma max_change_ge:
  assumes "i < length b" "i < length b'"
  shows "\<bar>b ! i - b' ! i\<bar> \<le> max_change b b'"
proof -
  have "map2 (\<lambda>x y. \<bar>x - y\<bar>) b b' ! i \<in> set (map2 (\<lambda>x y. \<bar>x - y\<bar>) b b')"
    using assms by (intro nth_mem) simp
  then have "\<bar>b ! i - b' ! i\<bar> \<in> set (map2 (\<lambda>x y. \<bar>x - y\<bar>) b b')" using assms by simp
  then show ?thesis unfolding max_change_def by (intro Max_ge) auto
qed

lemma list7:
  assumes "length r = 7"
  obtains a b c d e f g where "r = [a, b, c, d, e, f, g::'a]"
proof -
  from assms show thesis
    by (auto simp: length_Suc_conv eval_nat_numeral intro: that)
qed

lemma div_latent:
  "latent (map observation_of table_div) [b1, b2, b3, b4, b5, b6, b7] =
     [exp (- b7) / 8, exp (- (b1 + b7)) / 8, exp (- (b2 + b7)) / 8, exp (- (b3 + b7)) / 8,
      exp (- (b4 + b7)) / 8, exp (- (b5 + b7)) / 8, exp (- (b6 + b7)) / 8, 0]"
  by (simp add: latent_def table_div_def table_even_defs row_absent_def observation_of_def x_row_def
      dot_def upt_conv_Cons)

lemma div_increment:
  assumes "a \<noteq> 0" "b \<noteq> 0" "c1 \<noteq> 0" "c2 \<noteq> 0" "c3 \<noteq> 0" "c4 \<noteq> 0" "c5 \<noteq> 0"
  shows "mat_vec (div_inverse [a, b, c1, c2, c3, c4, c5, 0])
           (mat_vec (transpose_m 7 div_X) (map (\<lambda>x. x - 1) [a, b, c1, c2, c3, c4, c5, 0])) ! 6 = 1"
  using assms
  by (simp add: div_inverse_def Let_def div_X_def mat_vec_def transpose_m_def col_def dot_def
      upt_conv_Cons field_simps)

lemma div_step:
  assumes "length \<beta> = 7"
  shows "\<exists>\<beta>'. gauss_newton (map observation_of table_div) \<beta> = Inr \<beta>' \<and> length \<beta>' = 7 \<and>
              1/10000 < max_change \<beta> \<beta>'"
proof -
  from assms obtain b1 b2 b3 b4 b5 b6 b7 where b: "\<beta> = [b1, b2, b3, b4, b5, b6, b7]"
    by (rule list7)
  let ?l = "latent (map observation_of table_div) \<beta>"
  let ?d = "mat_vec (div_inverse ?l) (mat_vec (transpose_m 7 div_X) (map (\<lambda>x. x - 1) ?l))"
  have inv: "linalg_inv (matmul 7 (transpose_m 7 (scale_rows ?l div_X)) div_X) = Inr (div_inverse ?l)"
    unfolding b div_latent by (rule div_cross) simp_all
  have d6: "?d ! 6 = 1" unfolding b div_latent by (rule div_increment) simp_all
  have ld: "length ?d = 7" by (simp add: div_inverse_def Let_def)
  have gn: "gauss_newton (map observation_of table_div) \<beta> = Inr (vadd \<beta> ?d)"
    unfolding gauss_newton_def gauss_newton_step_def cross_latent_def obs_div inv by simp
  have "\<bar>\<beta> ! 6 - vadd \<beta> ?d ! 6\<bar> \<le> max_change \<beta> (vadd \<beta> ?d)"
    using assms ld by (intro max_change_ge) simp_all
  moreover have "vadd \<beta> ?d ! 6 = \<beta> ! 6 + 1" using assms ld d6 by simp
  ultimately have "1 \<le> max_change \<beta> (vadd \<beta> ?d)" by simp
  then show ?thesis using gn assms ld by simp
qed

lemma iterate_diverges:
  assumes sim: "\<And>\<beta>. length \<beta> = k \<Longrightarrow> update (column \<beta>) = map_sum id column (upd \<beta>)"
    and k: "0 < k"
    and step: "\<And>\<beta>. length \<beta> = k \<Longrightarrow> \<exists>\<beta>'. upd \<beta> = Inr \<beta>' \<and> length \<beta>' = k \<and> 1/10000 < max_change \<beta> \<beta>'"
    and l: "length \<beta> = k" and d: "1/10000 < d"
  shows "iterate update d (column \<beta>) = None"
proof (rule ccontr)
  assume "iterate update d (column \<beta>) \<noteq> None"
  then obtain y where run: "iterate update d (column \<beta>) = Some y" by auto
  let ?P = "\<lambda>u (d::real) vb (y::error + mat). \<not> (u = update \<and> 1/10000 < d \<and> (\<exists>\<beta>. vb = column \<beta> \<and> length \<beta> = k))"
  have "?P update d (column \<beta>) y"
  proof (rule iterate.raw_induct [where P = ?P, OF _ run], rule notI, elim conjE exE)
    fix it u and d :: real and vb y \<beta>
    assume IH: "\<And>u d vb y. it u d vb = Some y \<Longrightarrow> ?P u d vb y"
      and body: "(if 1/10000 < d then
                    (case u vb of Inl e \<Rightarrow> Some (Inl e)
                     | Inr vb_new \<Rightarrow> (case amax (mabs (msub vb vb_new)) of Inl e \<Rightarrow> Some (Inl e)
                                      | Inr d \<Rightarrow> it u d vb_new))
                  else Some (Inr vb)) = Some y"
      and u: "u = update" and d: "1/10000 < d" and v: "vb = column \<beta>" "length \<beta> = k"
    from step [OF v(2)] obtain \<beta>' where s: "upd \<beta> = Inr \<beta>'" "length \<beta>' = k" "1/10000 < max_change \<beta> \<beta>'"
      by blast
    have un: "update (column \<beta>) = Inr (column \<beta>')" using sim [OF v(2)] s by simp
    have am: "amax (mabs (msub (column \<beta>) (column \<beta>'))) = Inr (max_change \<beta> \<beta>')"
      using v(2) s(2) k by (intro amax_change) auto
    from body d u v un am have "it update (max_change \<beta> \<beta>') (column \<beta>') = Some y" by simp
    from IH [OF this] s show False by blast
  qed
  then show False using l d by blast
qed

lemma vb_linearIV_table_div: "vb_linearIV table_div = Inr vb_even"
  by (simp add: vb_linearIV_def vb_linearIV_unconstrained_def table_div_def row_absent_def
      table_even_defs design_defs array_defs inverse_defs upt_conv_Cons Let_def)

lemma table_table_div: "table table_div"
  by (simp add: table_def table_div_def table_even_defs row_absent_def)

lemma vb_even_column: "vb_even = column [0, 0, 0, 0, 0, 0, ln (1/8)]"
  by (simp add: vb_even_def column_def)

lemma nonlinear_unconstrained_table_div: "nonlinear_unconstrained table_div vb_even = None"
  unfolding nonlinear_unconstrained_def vb_even_column
proof (rule iterate_diverges [where k = 7 and upd = "gauss_newton (map observation_of table_div)"])
  show "update_unconstrained 7 (design_X table_div) (design_Z table_div) (vrweight table_div) (column \<beta>)
        = map_sum id column (gauss_newton (map observation_of table_div) \<beta>)" for \<beta>
    by (rule update_unconstrained_refines [OF table_table_div])
  show "\<exists>\<beta>'. gauss_newton (map observation_of table_div) \<beta> = Inr \<beta>' \<and> length \<beta>' = 7 \<and>
          1/10000 < max_change \<beta> \<beta>'" if "length \<beta> = 7" for \<beta>
    using that by (rule div_step)
qed simp_all

lemma estimate_table_div: "estimate table_div = None"
  by (simp add: estimate_def vb_linearIV_table_div vb_nonlinearIV_def nonlinear_unconstrained_table_div)

section \<open>The linear estimator\<close>

lemmas observation_defs = observation_of_def x_row_def z_row_def x_reduced_row_def retained_def
  log_weights_def adjusted_log_weights_def column_def mat_vec_def

lemma table_table_even: "table table_even"
  by (simp add: table_def table_even_defs)

lemma table_table_steep: "table table_steep"
  by (simp add: table_def table_steep_def)

text \<open>
  C2. On a table whose cross-product matrix \<open>Z\<^sup>T X\<close> has the inverse \<open>M\<close>, the unconstrained
  result of the linear-IV estimator is \<open>M (Z\<^sup>T y)\<close>, where \<open>X\<close> and \<open>Z\<close> have the rows
  \<open>[log_market_value | characteristics | 1]\<close> and
  \<open>[log_market_value_instrument | characteristics | 1]\<close> of the observations with a
  positive weight only, and \<open>y\<close> holds the logarithms of their weights.
\<close>

theorem linear_iv_closed_form:
  assumes "table mdata" and "shape 7 7 M"
    and "matmul 7 M (matmul 7 (transpose_m 7 (map z_row (retained (map observation_of mdata))))
                              (map x_row (retained (map observation_of mdata)))) = identity 7"
  shows "vb_linearIV_unconstrained mdata =
         Inr (column (mat_vec M (mat_vec (transpose_m 7 (map z_row (retained (map observation_of mdata))))
                                         (log_weights (retained (map observation_of mdata))))))"
proof -
  have "linalg_inv (matmul 7 (transpose_m 7 (map z_row (retained (map observation_of mdata))))
                              (map x_row (retained (map observation_of mdata)))) = Inr M"
    using cross_shape assms(2,3) by (rule linalg_inv_unique)
  then show ?thesis
    by (simp add: vb_linearIV_unconstrained_refines [OF assms(1)] linear_iv_unconstrained_def cross_linear_def Let_def)
qed

theorem linear_iv_closed_form_witness:
  "vb_linearIV_unconstrained table_even =
   Inr (column (mat_vec inverse_even
     (mat_vec (transpose_m 7 (map z_row (retained (map observation_of table_even))))
              (log_weights (retained (map observation_of table_even)))))) \<and>
   vb_linearIV_unconstrained table_even = Inr vb_even"
proof
  show "vb_linearIV_unconstrained table_even =
   Inr (column (mat_vec inverse_even
     (mat_vec (transpose_m 7 (map z_row (retained (map observation_of table_even))))
              (log_weights (retained (map observation_of table_even))))))"
  proof (rule linear_iv_closed_form)
    show "table table_even" by (rule table_table_even)
    show "shape 7 7 inverse_even" by (simp add: shape_def inverse_even_def)
    show "matmul 7 inverse_even (matmul 7 (transpose_m 7 (map z_row (retained (map observation_of table_even))))
                              (map x_row (retained (map observation_of table_even)))) = identity 7"
      by (simp add: inverse_even_def table_even_defs observation_defs transpose_m_def matmul_def
          col_def dot_def identity_def unit_vec_def upt_conv_Cons)
  qed
  then show "vb_linearIV_unconstrained table_even = Inr vb_even"
    by (simp add: inverse_even_def table_even_defs observation_defs transpose_m_def
          col_def dot_def upt_conv_Cons)
qed


lemma vb_linearIV_unconstrained_column:
  assumes "table mdata" and "vb_linearIV_unconstrained mdata = Inr vb"
  shows "\<exists>\<beta>. vb = column \<beta> \<and> length \<beta> = 7"
proof -
  from assms obtain \<beta> where b: "linear_iv_unconstrained (map observation_of mdata) = Inr \<beta>" "vb = column \<beta>"
    by (cases "linear_iv_unconstrained (map observation_of mdata)")
      (auto simp: vb_linearIV_unconstrained_refines)
  then show ?thesis using linear_iv_unconstrained_length by blast
qed

lemma first_gt_column: "\<beta> \<noteq> [] \<Longrightarrow> first_gt (column \<beta>) c = Inr (c < \<beta> ! 0)"
  by (cases \<beta>) (simp_all add: first_gt_def column_def)

lemma vb_linearIV_branches:
  assumes "vb_linearIV_unconstrained mdata = Inr (column \<beta>)" "\<beta> \<noteq> []"
  shows "vb_linearIV mdata = (if 99/100 < \<beta> ! 0 then vb_linearIV_constrained mdata else Inr (column \<beta>))"
  using assms by (simp add: vb_linearIV_def first_gt_column)

text \<open>
  C3. When the unconstrained solve returns a vector, the linear-IV estimator returns that
  vector unchanged if its first coefficient is at most 0.99. If the first coefficient
  exceeds 0.99, the estimator returns 0.99 followed by \<open>M (X'\<^sup>T y')\<close>, the least-squares
  solution for \<open>y' = y - 0.99 log_market_value\<close> on \<open>X' = [characteristics | 1]\<close> over the
  retained rows (\<open>M\<close> the inverse of \<open>X'\<^sup>T X'\<close>), a vector of length 7.
\<close>

theorem constrained_branch_fires_above_ceiling:
  assumes "table mdata" and "vb_linearIV_unconstrained mdata = Inr vb"
  shows "\<exists>x rest. vb = [x] # rest \<and>
     (x \<le> 99/100 \<longrightarrow> vb_linearIV mdata = Inr vb) \<and>
     (99/100 < x \<longrightarrow>
        (\<forall>M. shape 6 6 M \<longrightarrow>
              matmul 6 M (matmul 6 (transpose_m 6 (map x_reduced_row (retained (map observation_of mdata))))
                                   (map x_reduced_row (retained (map observation_of mdata)))) = identity 6 \<longrightarrow>
              vb_linearIV mdata =
                Inr (column (99/100 # mat_vec M
                  (mat_vec (transpose_m 6 (map x_reduced_row (retained (map observation_of mdata))))
                           (adjusted_log_weights (retained (map observation_of mdata))))))) \<and>
        (\<forall>r. vb_linearIV mdata = Inr r \<longrightarrow> length r = 7 \<and> r ! 0 = [99/100]))"
proof -
  let ?R = "retained (map observation_of mdata)"
  from vb_linearIV_unconstrained_column [OF assms] obtain \<beta>
    where b: "vb = column \<beta>" "length \<beta> = 7" by blast
  then obtain x t where xt: "\<beta> = x # t" by (cases \<beta>) auto
  have br: "vb_linearIV mdata = (if 99/100 < x then vb_linearIV_constrained mdata else Inr vb)"
    using vb_linearIV_branches [of mdata \<beta>] assms(2) b xt by simp
  have c: "vb_linearIV_constrained mdata = map_sum id column (linear_iv_constrained (map observation_of mdata))"
    by (rule vb_linearIV_constrained_refines [OF assms(1)])
  have closed: "vb_linearIV_constrained mdata =
      Inr (column (99/100 # mat_vec M (mat_vec (transpose_m 6 (map x_reduced_row ?R)) (adjusted_log_weights ?R))))"
    if "shape 6 6 M" "matmul 6 M (matmul 6 (transpose_m 6 (map x_reduced_row ?R)) (map x_reduced_row ?R)) = identity 6"
    for M
  proof -
    have "linalg_inv (matmul 6 (transpose_m 6 (map x_reduced_row ?R)) (map x_reduced_row ?R)) = Inr M"
      using cross_shape that by (rule linalg_inv_unique)
    then show ?thesis by (simp add: c linear_iv_constrained_def cross_reduced_def Let_def)
  qed
  have len: "length r = 7 \<and> r ! 0 = [99/100]" if "vb_linearIV_constrained mdata = Inr r" for r
  proof -
    from that c obtain \<gamma> where g: "linear_iv_constrained (map observation_of mdata) = Inr \<gamma>" "r = column \<gamma>"
      by (cases "linear_iv_constrained (map observation_of mdata)") auto
    from linear_iv_constrained_length [OF g(1)] g(2) show ?thesis by simp
  qed
  have "vb = [x] # column t" using b xt by (simp add: column_Cons)
  then show ?thesis using br closed len by (intro exI [of _ x] exI [of _ "column t"]) simp
qed

lemma vb_linearIV_unconstrained_table_even:
  "vb_linearIV_unconstrained table_even = Inr vb_even"
  by (simp add: vb_linearIV_unconstrained_def table_even_defs
      design_defs array_defs inverse_defs upt_conv_Cons Let_def)

lemma vb_linearIV_unconstrained_table_steep:
  "vb_linearIV_unconstrained table_steep = Inr vb_steep_unconstrained"
  by (simp add: vb_linearIV_unconstrained_def table_steep_def vb_steep_unconstrained_def
      design_defs array_defs inverse_defs upt_conv_Cons Let_def ln_div)

theorem constrained_branch_fires_above_ceiling_witness:
  "vb_linearIV table_even = Inr vb_even \<and> vb_linearIV table_steep = Inr vb_steep"
proof
  note u = vb_linearIV_unconstrained_table_even
  from constrained_branch_fires_above_ceiling [OF table_table_even u]
  show "vb_linearIV table_even = Inr vb_even" by (auto simp: vb_even_def)
next
  let ?R = "retained (map observation_of table_steep)"
  have M: "shape 6 6 inverse_steep_reduced" by (simp add: shape_def inverse_steep_reduced_def)
  have I: "matmul 6 inverse_steep_reduced
      (matmul 6 (transpose_m 6 (map x_reduced_row ?R)) (map x_reduced_row ?R)) = identity 6"
    by (simp add: inverse_steep_reduced_def table_steep_def observation_defs transpose_m_def matmul_def
          col_def dot_def identity_def unit_vec_def upt_conv_Cons)
  from constrained_branch_fires_above_ceiling [OF table_table_steep vb_linearIV_unconstrained_table_steep]
  have "vb_linearIV table_steep =
     Inr (column (99/100 # mat_vec inverse_steep_reduced
       (mat_vec (transpose_m 6 (map x_reduced_row ?R)) (adjusted_log_weights ?R))))"
    using M I by (auto simp: vb_steep_unconstrained_def)
  then show "vb_linearIV table_steep = Inr vb_steep"
    by (simp add: inverse_steep_reduced_def table_steep_def observation_defs transpose_m_def
          col_def dot_def upt_conv_Cons vb_steep_def ln_div) (simp add: field_simps)
qed

section \<open>A table on which the iteration stops after one pass\<close>


lemma obs_wide: "map x_row (map observation_of table_wide) = wide_X"
  "map z_row (map observation_of table_wide) = wide_X"
  by (simp_all add: table_wide_def observation_of_def x_row_def z_row_def wide_X_def)

lemma wide_cross:
  assumes "a \<noteq> 0" "b \<noteq> 0"
  shows "linalg_inv (matmul 7 (transpose_m 7 (scale_rows [a, b, 1, 1, 1, 1, 1, 0] wide_X)) wide_X)
         = Inr (wide_inverse a b)"
proof (rule linalg_inv_unique [where n = 7])
  show "shape 7 7 (matmul 7 (transpose_m 7 (scale_rows [a, b, 1, 1, 1, 1, 1, 0] wide_X)) wide_X)"
    by (rule cross_shape)
  show "shape 7 7 (wide_inverse a b)"
    by (simp add: shape_def wide_inverse_def Let_def)
  show "matmul 7 (wide_inverse a b)
     (matmul 7 (transpose_m 7 (scale_rows [a, b, 1, 1, 1, 1, 1, 0] wide_X)) wide_X) = identity 7"
    using assms
    by (simp add: wide_inverse_def Let_def wide_X_def scale_rows_def smul_def transpose_m_def col_def
        matmul_def dot_def identity_def unit_vec_def upt_conv_Cons field_simps)
qed

lemma wide_increment_eq:
  assumes "a \<noteq> 0" "b \<noteq> 0"
  shows "mat_vec (wide_inverse a b)
           (mat_vec (transpose_m 7 wide_X) [a - 1, b - 1, 0, 0, 0, 0, 0, - 1])
         = wide_increment a b"
  using assms
  by (simp add: wide_inverse_def wide_increment_def Let_def wide_X_def mat_vec_def transpose_m_def
      col_def dot_def upt_conv_Cons field_simps)


lemma wide_latent0: "latent (map observation_of table_wide) beta_even = [1, 1, 1, 1, 1, 1, 1, 0]"
  by (simp add: latent_def table_wide_def observation_of_def x_row_def dot_def beta_even_def
      exp_minus ln_div)



subsection \<open>The non-linear estimator on column vectors\<close>

lemma nonlinear_unconstrained_run:
  assumes "table m" "length \<beta> = 7"
  shows "nonlinear_unconstrained m (column \<beta>) = Some (Inr r) \<longleftrightarrow>
         (\<exists>n b. b 0 = \<beta> \<and> r = column (b (Suc n)) \<and> run_of (gauss_newton (map observation_of m)) b n)"
  unfolding nonlinear_unconstrained_def
  by (rule iterate_run [where k = 7 and upd = "gauss_newton (map observation_of m)"])
    (use assms in \<open>auto simp: update_unconstrained_refines gauss_newton_length\<close>)

lemma nonlinear_unconstrained_raises:
  assumes "table m" "length \<beta> = 7"
  shows "nonlinear_unconstrained m (column \<beta>) = Some (Inl e) \<longleftrightarrow>
         (\<exists>n b. b 0 = \<beta> \<and> raises_after (gauss_newton (map observation_of m)) b n e)"
  unfolding nonlinear_unconstrained_def
  by (rule iterate_raises [where k = 7 and upd = "gauss_newton (map observation_of m)"])
    (use assms in \<open>auto simp: update_unconstrained_refines gauss_newton_length\<close>)

lemma drop_column: "drop n (column v) = column (drop n v)"
  by (simp add: column_def drop_map)

lemma constrained_loop_run:
  assumes "table m" "length \<gamma> = 6"
  shows "iterate (update_constrained 6 (design_X_reduced m) (cols 8 9 m) (vrweight m)) 1 (column \<gamma>)
           = Some (Inr r) \<longleftrightarrow>
         (\<exists>n b. b 0 = \<gamma> \<and> r = column (b (Suc n)) \<and> run_of (gauss_newton_fixed (map observation_of m)) b n)"
  by (rule iterate_run [where k = 6 and upd = "gauss_newton_fixed (map observation_of m)"])
    (use assms in \<open>auto simp: update_constrained_refines gauss_newton_fixed_length\<close>)

lemma constrained_loop_raises:
  assumes "table m" "length \<gamma> = 6"
  shows "iterate (update_constrained 6 (design_X_reduced m) (cols 8 9 m) (vrweight m)) 1 (column \<gamma>)
           = Some (Inl e) \<longleftrightarrow>
         (\<exists>n b. b 0 = \<gamma> \<and> raises_after (gauss_newton_fixed (map observation_of m)) b n e)"
  by (rule iterate_raises [where k = 6 and upd = "gauss_newton_fixed (map observation_of m)"])
    (use assms in \<open>auto simp: update_constrained_refines gauss_newton_fixed_length\<close>)

lemma nonlinear_constrained_run:
  assumes "table m" "length \<beta> = 7"
  shows "nonlinear_constrained m (column \<beta>) = Some (Inr r) \<longleftrightarrow>
         (\<exists>n b. b 0 = tl \<beta> \<and> r = column (99/100 # b (Suc n)) \<and>
                run_of (gauss_newton_fixed (map observation_of m)) b n)"
proof -
  have l: "length (tl \<beta>) = 6" using assms(2) by simp
  have d: "drop 1 (column \<beta>) = column (tl \<beta>)" by (simp add: drop_column drop_Suc)
  note loop = constrained_loop_run [OF assms(1) l]
  show ?thesis
  proof
    assume "nonlinear_constrained m (column \<beta>) = Some (Inr r)"
    then obtain r' where r': "iterate (update_constrained 6 (design_X_reduced m) (cols 8 9 m) (vrweight m))
        1 (column (tl \<beta>)) = Some (Inr r')" "r = [[99/100]] @ r'"
      unfolding nonlinear_constrained_def d by (auto split: option.splits sum.splits)
    from r'(1) loop [of r'] obtain n b where "b 0 = tl \<beta>" "r' = column (b (Suc n))"
      "run_of (gauss_newton_fixed (map observation_of m)) b n" by blast
    then show "\<exists>n b. b 0 = tl \<beta> \<and> r = column (99/100 # b (Suc n)) \<and>
                run_of (gauss_newton_fixed (map observation_of m)) b n"
      using r'(2) by (auto simp: column_Cons)
  next
    assume "\<exists>n b. b 0 = tl \<beta> \<and> r = column (99/100 # b (Suc n)) \<and>
                run_of (gauss_newton_fixed (map observation_of m)) b n"
    then obtain n b where b: "b 0 = tl \<beta>" "r = column (99/100 # b (Suc n))"
      "run_of (gauss_newton_fixed (map observation_of m)) b n" by blast
    then have "iterate (update_constrained 6 (design_X_reduced m) (cols 8 9 m) (vrweight m))
        1 (column (tl \<beta>)) = Some (Inr (column (b (Suc n))))"
      using loop [of "column (b (Suc n))"] by blast
    then show "nonlinear_constrained m (column \<beta>) = Some (Inr r)"
      unfolding nonlinear_constrained_def d using b(2) by (simp add: column_Cons)
  qed
qed

lemma vb_nonlinearIV_branches:
  assumes "nonlinear_unconstrained m vb_lin = Some (Inr (column \<beta>'))" "\<beta>' \<noteq> []"
  shows "vb_nonlinearIV m vb_lin =
         (if 99/100 < \<beta>' ! 0 then nonlinear_constrained m vb_lin else Some (Inr (column \<beta>')))"
  using assms by (simp add: vb_nonlinearIV_def first_gt_column)

lemma run_of_length:
  assumes "run_of upd b n" "\<And>\<beta> \<beta>'. length \<beta> = k \<Longrightarrow> upd \<beta> = Inr \<beta>' \<Longrightarrow> length \<beta>' = k"
    "length (b 0) = k" "j \<le> Suc n"
  shows "length (b j) = k"
  using assms(4)
proof (induction j)
  case 0
  then show ?case using assms(3) by simp
next
  case (Suc j)
  then have "upd (b j) = Inr (b (Suc j))" using assms(1) by (simp add: run_of_def)
  then show ?case using assms(2) Suc by simp
qed

subsection \<open>The first pass on the wide table\<close>






lemma vb_even_beta: "vb_even = column beta_even"
  by (simp add: vb_even_def beta_even_def column_def)



subsection \<open>One more pass\<close>




section \<open>The non-linear estimator\<close>






subsection \<open>The last pass and one more\<close>






section \<open>Leaving the loops\<close>

subsection \<open>Outcomes\<close>

lemma gauss_newton_step_length:
  assumes "gauss_newton_step obs \<beta> = Inr \<delta>"
  shows "length \<delta> = 7"
proof -
  from assms obtain M where M: "linalg_inv (cross_latent obs \<beta>) = Inr M"
    and d: "\<delta> = mat_vec M (mat_vec (transpose_m 7 (map z_row obs)) (map (\<lambda>x. x - 1) (latent obs \<beta>)))"
    by (auto simp: gauss_newton_step_def split: sum.splits)
  have "shape 7 7 M" using linalg_inv_sound(1) [OF cross_shape M [unfolded cross_latent_def]] .
  then show ?thesis using d by (simp add: shapeD)
qed

lemma vadd_eq_self:
  assumes "length \<delta> = length \<beta>"
  shows "vadd \<beta> \<delta> = \<beta> \<longleftrightarrow> \<delta> = replicate (length \<beta>) 0"
proof
  assume e: "vadd \<beta> \<delta> = \<beta>"
  show "\<delta> = replicate (length \<beta>) 0"
  proof (rule nth_equalityI)
    show "length \<delta> = length (replicate (length \<beta>) 0)" using assms by simp
    fix i assume i: "i < length \<delta>"
    then have "vadd \<beta> \<delta> ! i = \<beta> ! i + \<delta> ! i" using assms by simp
    then show "\<delta> ! i = replicate (length \<beta>) 0 ! i" using e i assms by simp
  qed
next
  assume "\<delta> = replicate (length \<beta>) 0"
  then show "vadd \<beta> \<delta> = \<beta>" by (intro nth_equalityI) simp_all
qed

lemma nonlinear_unconstrained_column:
  assumes "table m" "length \<beta> = 7" "nonlinear_unconstrained m (column \<beta>) = Some (Inr r)"
  shows "\<exists>\<beta>'. r = column \<beta>' \<and> length \<beta>' = 7"
proof -
  from assms obtain n b where b: "b 0 = \<beta>" "r = column (b (Suc n))"
    "run_of (gauss_newton (map observation_of m)) b n"
    using nonlinear_unconstrained_run by blast
  have "length (b (Suc n)) = 7"
    by (rule run_of_length [OF b(3)]) (use b assms gauss_newton_length in auto)
  then show ?thesis using b by blast
qed

lemma nonlinear_constrained_raises:
  assumes "table m" "length \<beta> = 7"
  shows "nonlinear_constrained m (column \<beta>) = Some (Inl e) \<longleftrightarrow>
         (\<exists>n b. b 0 = tl \<beta> \<and> raises_after (gauss_newton_fixed (map observation_of m)) b n e)"
proof -
  have l: "length (tl \<beta>) = 6" using assms(2) by simp
  have d: "drop 1 (column \<beta>) = column (tl \<beta>)" by (simp add: drop_column drop_Suc)
  show ?thesis
    unfolding nonlinear_constrained_def d constrained_loop_raises [OF assms(1) l, symmetric]
    by (auto split: option.splits sum.splits)
qed

lemma option_sum_cases:
  fixes x :: "(error + mat) option"
  shows "x \<noteq> None \<longleftrightarrow> (\<exists>r. x = Some (Inr r)) \<or> (\<exists>e. x = Some (Inl e))"
  by (cases x) (auto intro: sum.exhaust)

lemma nonlinear_unconstrained_returns:
  assumes "table m" "length \<beta> = 7"
  shows "nonlinear_unconstrained m (column \<beta>) \<noteq> None \<longleftrightarrow>
         (\<exists>n b. b 0 = \<beta> \<and> (run_of (gauss_newton (map observation_of m)) b n \<or>
                            (\<exists>e. raises_after (gauss_newton (map observation_of m)) b n e)))"
  unfolding option_sum_cases nonlinear_unconstrained_run [OF assms] nonlinear_unconstrained_raises [OF assms]
  by blast

lemma nonlinear_constrained_returns:
  assumes "table m" "length \<beta> = 7"
  shows "nonlinear_constrained m (column \<beta>) \<noteq> None \<longleftrightarrow>
         (\<exists>n b. b 0 = tl \<beta> \<and> (run_of (gauss_newton_fixed (map observation_of m)) b n \<or>
                               (\<exists>e. raises_after (gauss_newton_fixed (map observation_of m)) b n e)))"
  unfolding option_sum_cases nonlinear_constrained_run [OF assms] nonlinear_constrained_raises [OF assms]
  by blast

lemma vb_nonlinearIV_returns:
  assumes "table m" "length \<beta> = 7"
  shows "vb_nonlinearIV m (column \<beta>) \<noteq> None \<longleftrightarrow>
         nonlinear_unconstrained m (column \<beta>) \<noteq> None \<and>
         (\<forall>\<beta>'. nonlinear_unconstrained m (column \<beta>) = Some (Inr (column \<beta>')) \<and> 99/100 < \<beta>' ! 0 \<longrightarrow>
               nonlinear_constrained m (column \<beta>) \<noteq> None)"
proof (cases "nonlinear_unconstrained m (column \<beta>)")
  case None
  then show ?thesis by (simp add: vb_nonlinearIV_def)
next
  case (Some y)
  show ?thesis
  proof (cases y)
    case (Inl e)
    then show ?thesis using Some by (simp add: vb_nonlinearIV_def)
  next
    case (Inr r)
    with Some nonlinear_unconstrained_column [OF assms] obtain \<beta>'
      where b: "r = column \<beta>'" "length \<beta>' = 7" by blast
    then have "\<beta>' \<noteq> []" by auto
    from vb_nonlinearIV_branches [OF Some [unfolded Inr b(1)] this] show ?thesis
      using Some Inr b by auto
  qed
qed

lemma vb_linearIV_error:
  assumes "table m" "vb_linearIV m = Inl e"
  shows "e = LinAlgError"
proof (cases "vb_linearIV_unconstrained m")
  case (Inl e')
  then have "linear_iv_unconstrained (map observation_of m) = Inl e'"
    by (cases "linear_iv_unconstrained (map observation_of m)")
      (auto simp: vb_linearIV_unconstrained_refines [OF assms(1)])
  then have "e' = LinAlgError"
    by (auto simp: linear_iv_unconstrained_def split: sum.splits dest: linalg_inv_error)
  then show ?thesis using Inl assms(2) by (simp add: vb_linearIV_def)
next
  case (Inr vb0)
  from vb_linearIV_unconstrained_column [OF assms(1) Inr] obtain \<beta>0
    where b0: "vb0 = column \<beta>0" "length \<beta>0 = 7" by blast
  then have ne: "\<beta>0 \<noteq> []" by auto
  from vb_linearIV_branches [OF Inr [unfolded b0(1)] ne] assms(2)
  have "vb_linearIV_constrained m = Inl e" by (auto split: if_splits)
  then have "linear_iv_constrained (map observation_of m) = Inl e"
    by (cases "linear_iv_constrained (map observation_of m)")
      (auto simp: vb_linearIV_constrained_refines [OF assms(1)])
  then show ?thesis
    by (auto simp: linear_iv_constrained_def split: sum.splits dest: linalg_inv_error)
qed

subsection \<open>The first pass\<close>

lemma run_of_updates:
  "run_of upd b n \<Longrightarrow> \<forall>j\<le>n. upd (b j) = Inr (b (Suc j))"
  by (simp add: run_of_def)

lemma gauss_newton_from_step:
  "gauss_newton_step obs \<beta> = Inr \<delta> \<Longrightarrow> gauss_newton obs \<beta> = Inr (vadd \<beta> \<delta>)"
  "gauss_newton_step obs \<beta> = Inl e \<Longrightarrow> gauss_newton obs \<beta> = Inl e"
  by (simp_all add: gauss_newton_def)

lemma nonlinear_unconstrained_first_raise:
  assumes "table m" "length \<beta> = 7" "gauss_newton_step (map observation_of m) \<beta> = Inl e"
  shows "nonlinear_unconstrained m (column \<beta>) = Some (Inl e)"
proof -
  have "raises_after (gauss_newton (map observation_of m)) (\<lambda>j. \<beta>) 0 e"
    using assms(3) by (simp add: raises_after_def gauss_newton_from_step)
  then have "\<exists>n b. b 0 = \<beta> \<and> raises_after (gauss_newton (map observation_of m)) b n e"
    by (intro exI [of _ 0] exI [of _ "\<lambda>j. \<beta>"]) simp
  then show ?thesis by (simp add: nonlinear_unconstrained_raises [OF assms(1,2)])
qed

lemma nonlinear_unconstrained_one_pass:
  assumes "table m" "length \<beta> = 7" "gauss_newton_step (map observation_of m) \<beta> = Inr \<delta>"
    "max_change \<beta> (vadd \<beta> \<delta>) \<le> 1/10000"
  shows "nonlinear_unconstrained m (column \<beta>) = Some (Inr (column (vadd \<beta> \<delta>)))"
proof -
  have "run_of (gauss_newton (map observation_of m)) (\<lambda>j. case j of 0 \<Rightarrow> \<beta> | Suc i \<Rightarrow> vadd \<beta> \<delta>) 0"
    using assms(3,4) by (intro run_of_single) (simp_all add: gauss_newton_from_step)
  then have "\<exists>n b. b 0 = \<beta> \<and> column (vadd \<beta> \<delta>) = column (b (Suc n)) \<and>
      run_of (gauss_newton (map observation_of m)) b n"
    by (intro exI [of _ 0] exI [of _ "\<lambda>j. case j of 0 \<Rightarrow> \<beta> | Suc i \<Rightarrow> vadd \<beta> \<delta>"]) simp
  then show ?thesis by (simp add: nonlinear_unconstrained_run [OF assms(1,2)])
qed

lemma max_change_commute: "max_change b b' = max_change b' b"
proof -
  have "map2 (\<lambda>x y. \<bar>x - y\<bar>) b b' = map2 (\<lambda>x y. \<bar>x - y\<bar>) b' b"
  proof (induction b arbitrary: b')
    case (Cons x xs)
    then show ?case by (cases b') (simp_all add: abs_minus_commute)
  qed simp
  then show ?thesis by (simp add: max_change_def)
qed

lemma run_of_back_to_start:
  assumes run: "run_of (gauss_newton obs) b n" and ret: "b (Suc n) = b 0" and l: "length (b 0) = 7"
  shows "(n = 0 \<and> gauss_newton_step obs (b 0) = Inr (replicate 7 0)) \<or> 2 \<le> n"
proof -
  consider "n = 0" | "n = 1" | "2 \<le> n" by linarith
  then show ?thesis
  proof cases
    case 1
    with run ret have g: "gauss_newton obs (b 0) = Inr (b 0)" by (simp add: run_of_def)
    then obtain \<delta> where d: "gauss_newton_step obs (b 0) = Inr \<delta>" and v: "vadd (b 0) \<delta> = b 0"
      by (auto simp add: gauss_newton_def split: sum.splits)
    from vadd_eq_self [of \<delta> "b 0"] gauss_newton_step_length [OF d] l v
    have "\<delta> = replicate 7 0" by simp
    with d 1 show ?thesis by simp
  next
    case 2
    with run have "max_change (b 0) (b 1) > 1/10000" "max_change (b 1) (b (Suc 1)) \<le> 1/10000"
      by (simp_all add: run_of_def)
    with ret 2 max_change_commute [of "b 0" "b 1"] show ?thesis by simp
  next
    case 3
    then show ?thesis by simp
  qed
qed

lemma obs_even: "map x_row (map observation_of table_even) = take 7 div_X"
  "map z_row (map observation_of table_even) = take 7 div_X"
  by (simp_all add: table_even_defs observation_of_def x_row_def z_row_def div_X_def upt_conv_Cons)

lemma even_step: "gauss_newton_step (map observation_of table_even) beta_even = Inr (replicate 7 0)"
proof -
  have l: "latent (map observation_of table_even) beta_even = [1, 1, 1, 1, 1, 1, 1]"
    by (simp add: latent_def table_even_defs observation_of_def x_row_def dot_def beta_even_def
        upt_conv_Cons exp_minus ln_div)
  have "linalg_inv (cross_latent (map observation_of table_even) beta_even) = Inr inverse_even"
  proof (rule linalg_inv_unique [where n = 7])
    show "shape 7 7 (cross_latent (map observation_of table_even) beta_even)"
      unfolding cross_latent_def by (rule cross_shape)
    show "shape 7 7 inverse_even" by (simp add: shape_def inverse_even_def)
    show "matmul 7 inverse_even (cross_latent (map observation_of table_even) beta_even) = identity 7"
      unfolding cross_latent_def obs_even l
      by (simp add: inverse_even_def div_X_def scale_rows_def smul_def transpose_m_def col_def
          matmul_def dot_def identity_def unit_vec_def upt_conv_Cons)
  qed
  then show ?thesis
    unfolding gauss_newton_step_def obs_even l
    by (simp add: inverse_even_def div_X_def mat_vec_def transpose_m_def col_def dot_def
        upt_conv_Cons eval_nat_numeral)
qed

lemma wide_first_step:
  "gauss_newton_step (map observation_of table_wide) beta_even = Inr (wide_increment 1 1)"
  unfolding gauss_newton_step_def cross_latent_def obs_wide wide_latent0
  using wide_increment_eq [of 1 1] by (simp add: wide_cross)

section \<open>Errors\<close>

subsection \<open>Singular matrices\<close>

lemma singular_iff:
  assumes "shape k k A"
  shows "singular A \<longleftrightarrow> linalg_inv A = Inl LinAlgError"
proof -
  have "square A" using assms by (simp add: square_shape shapeD)
  then show ?thesis unfolding singular_def linalg_inv_fails_iff by simp
qed

lemma cross_shapes:
  "shape 7 7 (cross_linear obs)" "shape 6 6 (cross_reduced obs)"
  "shape 7 7 (cross_latent obs \<beta>)" "shape 6 6 (cross_latent_fixed obs \<gamma>)"
  by (simp_all add: cross_linear_def cross_reduced_def cross_latent_def cross_latent_fixed_def
      cross_shape)

lemma singular_linear:
  assumes "table m" "singular (cross_linear (map observation_of m))"
  shows "vb_linearIV_unconstrained m = Inl LinAlgError" "vb_linearIV m = Inl LinAlgError"
    "estimate m = Some (Inl LinAlgError)"
proof -
  have "linalg_inv (cross_linear (map observation_of m)) = Inl LinAlgError"
    using assms(2) singular_iff [OF cross_shapes(1)] by simp
  then show u: "vb_linearIV_unconstrained m = Inl LinAlgError"
    by (simp add: vb_linearIV_unconstrained_refines [OF assms(1)] linear_iv_unconstrained_def)
  then show l: "vb_linearIV m = Inl LinAlgError" by (simp add: vb_linearIV_def)
  then show "estimate m = Some (Inl LinAlgError)" by (simp add: estimate_def)
qed

lemma singular_reduced:
  assumes "table m" "singular (cross_reduced (map observation_of m))"
  shows "vb_linearIV_constrained m = Inl LinAlgError"
proof -
  have "linalg_inv (cross_reduced (map observation_of m)) = Inl LinAlgError"
    using assms(2) singular_iff [OF cross_shapes(2)] by simp
  then show ?thesis
    by (simp add: vb_linearIV_constrained_refines [OF assms(1)] linear_iv_constrained_def)
qed

lemma singular_latent:
  assumes "singular (cross_latent obs \<beta>)"
  shows "gauss_newton obs \<beta> = Inl LinAlgError"
  using assms singular_iff [OF cross_shapes(3)]
  by (simp add: gauss_newton_def gauss_newton_step_def)

lemma singular_latent_fixed:
  assumes "singular (cross_latent_fixed obs \<gamma>)"
  shows "gauss_newton_fixed obs \<gamma> = Inl LinAlgError"
  using assms singular_iff [OF cross_shapes(4)]
  by (simp add: gauss_newton_fixed_def gauss_newton_fixed_step_def)

lemma raises_afterI:
  assumes "\<forall>j<n. upd (b j) = Inr (b (Suc j)) \<and> 1/10000 < max_change (b j) (b (Suc j))"
    "upd (b n) = Inl e"
  shows "raises_after upd b n e"
  using assms by (simp add: raises_after_def)

subsection \<open>Tables for the singular cases\<close>

lemma table_table_none: "table table_none"
  by (simp add: table_def table_none_def row_absent_def)

lemma linalg_inv_zero7: "linalg_inv (replicate 7 (replicate 7 0)) = Inl LinAlgError"
  by (simp add: inverse_defs eval_nat_numeral)

lemma linalg_inv_zero6: "linalg_inv (replicate 6 (replicate 6 0)) = Inl LinAlgError"
  by (simp add: inverse_defs eval_nat_numeral)

lemma cross_none:
  "cross_linear (map observation_of table_none) = replicate 7 (replicate 7 0)"
  "cross_reduced (map observation_of table_none) = replicate 6 (replicate 6 0)"
  "cross_latent (map observation_of table_none) \<beta> = replicate 7 (replicate 7 0)"
  "cross_latent_fixed (map observation_of table_none) \<gamma> = replicate 6 (replicate 6 0)"
  by (simp_all add: cross_linear_def cross_reduced_def cross_latent_def cross_latent_fixed_def
      latent_def latent_fixed_def table_none_def row_absent_def observation_defs scale_rows_def
      smul_def transpose_m_def matmul_def col_def dot_def upt_conv_Cons eval_nat_numeral)

lemma singular_none:
  "singular (cross_linear (map observation_of table_none))"
  "singular (cross_reduced (map observation_of table_none))"
  "singular (cross_latent (map observation_of table_none) \<beta>)"
  "singular (cross_latent_fixed (map observation_of table_none) \<gamma>)"
  using singular_iff [OF cross_shapes(1), of "map observation_of table_none"]
    singular_iff [OF cross_shapes(2), of "map observation_of table_none"]
    singular_iff [OF cross_shapes(3), of "map observation_of table_none" \<beta>]
    singular_iff [OF cross_shapes(4), of "map observation_of table_none" \<gamma>]
  by (simp_all add: cross_none linalg_inv_zero7 linalg_inv_zero6)


lemma obs_steep: "map x_row (map observation_of table_steep) = take 7 div_X"
  "map z_row (map observation_of table_steep) = take 7 div_X"
  by (simp_all add: table_steep_def observation_of_def x_row_def z_row_def div_X_def)

lemma steep_latent: "latent (map observation_of table_steep) beta_steep = [1, 1, 1, 1, 1, 1, 1]"
  by (simp add: latent_def table_steep_def observation_of_def x_row_def dot_def beta_steep_def
      ln_div exp_diff exp_minus)

lemma steep_step: "gauss_newton_step (map observation_of table_steep) beta_steep = Inr (replicate 7 0)"
proof -
  have "linalg_inv (cross_latent (map observation_of table_steep) beta_steep) = Inr inverse_even"
  proof (rule linalg_inv_unique [where n = 7])
    show "shape 7 7 (cross_latent (map observation_of table_steep) beta_steep)"
      by (rule cross_shapes)
    show "shape 7 7 inverse_even" by (simp add: shape_def inverse_even_def)
    show "matmul 7 inverse_even (cross_latent (map observation_of table_steep) beta_steep) = identity 7"
      unfolding cross_latent_def obs_steep steep_latent
      by (simp add: inverse_even_def div_X_def scale_rows_def smul_def transpose_m_def col_def
          matmul_def dot_def identity_def unit_vec_def upt_conv_Cons)
  qed
  then show ?thesis
    unfolding gauss_newton_step_def obs_steep steep_latent
    by (simp add: inverse_even_def div_X_def mat_vec_def transpose_m_def col_def dot_def
        upt_conv_Cons eval_nat_numeral)
qed

lemma nonlinear_unconstrained_table_steep:
  "nonlinear_unconstrained table_steep (column beta_steep) = Some (Inr (column beta_steep))"
proof -
  have l: "length beta_steep = 7" by (simp add: beta_steep_def)
  have z: "vadd beta_steep (replicate 7 0) = beta_steep"
    by (simp add: beta_steep_def vadd_def eval_nat_numeral)
  have "max_change beta_steep (vadd beta_steep (replicate 7 0)) \<le> 1/10000"
    unfolding z by (simp add: max_change_def beta_steep_def)
  from nonlinear_unconstrained_one_pass [OF table_table_steep l steep_step this]
  show ?thesis by (simp add: z)
qed

lemma table_table_fixed: "table table_fixed"
  by (simp add: table_def table_fixed_def)

lemma obs_fixed:
  "map x_row (map observation_of table_fixed) = fixed_X (ln (1/2)) (ln (3/2))"
  "map z_row (map observation_of table_fixed) = fixed_X (ln (1/2)) (ln (3/2))"
  "map x_reduced_row (map observation_of table_fixed) = map tl (take 7 div_X)"
  by (simp_all add: table_fixed_def observation_of_def x_row_def z_row_def x_reduced_row_def
      fixed_X_def div_X_def)

lemma fixed_product:
  assumes "d \<noteq> 0"
  shows "matmul 7 (fixed_inverse a (a - d))
     (matmul 7 (transpose_m 7 (scale_rows [1, 1, 1, 1, 1, 1, 1] (fixed_X a (a - d)))) (fixed_X a (a - d)))
     = identity 7"
  using assms
  by (simp add: fixed_inverse_def Let_def fixed_X_def scale_rows_def smul_def transpose_m_def col_def
        matmul_def dot_def identity_def unit_vec_def upt_conv_Cons)
    (simp add: field_simps)

lemma fixed_cross:
  assumes "a \<noteq> b"
  shows "linalg_inv (matmul 7 (transpose_m 7 (scale_rows [1, 1, 1, 1, 1, 1, 1] (fixed_X a b))) (fixed_X a b))
         = Inr (fixed_inverse a b)"
proof (rule linalg_inv_unique [where n = 7])
  show "shape 7 7 (matmul 7 (transpose_m 7 (scale_rows [1, 1, 1, 1, 1, 1, 1] (fixed_X a b))) (fixed_X a b))"
    by (rule cross_shape)
  show "shape 7 7 (fixed_inverse a b)"
    by (simp add: shape_def fixed_inverse_def Let_def)
  show "matmul 7 (fixed_inverse a b)
     (matmul 7 (transpose_m 7 (scale_rows [1, 1, 1, 1, 1, 1, 1] (fixed_X a b))) (fixed_X a b)) = identity 7"
    using fixed_product [of "a - b" a] assms by simp
qed

lemma fixed_latent: "latent (map observation_of table_fixed) beta_fixed = [1, 1, 1, 1, 1, 1, 1]"
proof -
  have e: "exp u * exp (- u) = 1" for u :: real by (simp add: exp_minus)
  have "exp (199/100 * ln (1/2) + ln (1/16)) * exp (- (ln (1/2) * (199/100) + ln (1/16))) = (1::real)"
    using e [of "199/100 * ln (1/2) + ln (1/16)"] by (simp add: mult.commute)
  moreover have "exp (199/100 * ln (3/2) + ln (1/16)) * exp (- (ln (3/2) * (199/100) + ln (1/16))) = (1::real)"
    using e [of "199/100 * ln (3/2) + ln (1/16)"] by (simp add: mult.commute)
  moreover have "(1/16) * exp (- ln (1/16)) = (1::real)" by (simp add: exp_minus)
  ultimately show ?thesis
    unfolding latent_def table_fixed_def beta_fixed_def
    by (simp add: observation_of_def x_row_def dot_def del: ln_divide_pos ln_div)
qed


lemma fixed_step: "gauss_newton_step (map observation_of table_fixed) beta_fixed = Inr (replicate 7 0)"
proof -
  have "ln (1/2) < (0::real)" "(0::real) < ln (3/2)" by simp_all
  then have ne: "ln (1/2) \<noteq> (ln (3/2) :: real)" by linarith
  show ?thesis
    unfolding gauss_newton_step_def cross_latent_def obs_fixed fixed_latent fixed_cross [OF ne]
    by (simp add: fixed_inverse_def Let_def fixed_X_def mat_vec_def transpose_m_def col_def dot_def
        upt_conv_Cons eval_nat_numeral del: ln_divide_pos ln_div)
qed

lemma nonlinear_unconstrained_table_fixed:
  "nonlinear_unconstrained table_fixed (column beta_fixed) = Some (Inr (column beta_fixed))"
proof -
  have l: "length beta_fixed = 7" by (simp add: beta_fixed_def)
  have z: "vadd beta_fixed (replicate 7 0) = beta_fixed"
    by (simp add: beta_fixed_def vadd_def eval_nat_numeral)
  have "max_change beta_fixed (vadd beta_fixed (replicate 7 0)) \<le> 1/10000"
    unfolding z by (simp add: max_change_def beta_fixed_def)
  from nonlinear_unconstrained_one_pass [OF table_table_fixed l fixed_step this]
  show ?thesis by (simp add: z)
qed

lemma fixed_latent_fixed:
  "latent_fixed (map observation_of table_fixed) (tl beta_fixed) = [1/2, 3/2, 1, 1, 1, 1, 1]"
proof -
  have e: "exp (199/100 * L + c) * exp (- (99/100) * L - c) = exp L" for L c :: real
    by (simp add: exp_add [symmetric] algebra_simps)
  have "exp (199/100 * ln (1/2) + ln (1/16)) * exp (- (99/100) * ln (1/2) - ln (1/16)) = (1/2::real)"
    unfolding e by simp
  moreover have "exp (199/100 * ln (3/2) + ln (1/16)) * exp (- (99/100) * ln (3/2) - ln (1/16)) = (3/2::real)"
    unfolding e by simp
  moreover have "(1/16) * exp (- ln (1/16)) = (1::real)" by (simp add: exp_minus)
  ultimately show ?thesis
    unfolding latent_fixed_def table_fixed_def beta_fixed_def
    by (simp add: observation_of_def x_reduced_row_def dot_def del: ln_divide_pos ln_div)
qed

lemma fixed_fixed_step:
  "gauss_newton_fixed_step (map observation_of table_fixed) (tl beta_fixed) = Inr (replicate 6 0)"
proof -
  have "linalg_inv (cross_latent_fixed (map observation_of table_fixed) (tl beta_fixed))
        = Inr inverse_steep_reduced"
  proof (rule linalg_inv_unique [where n = 6])
    show "shape 6 6 (cross_latent_fixed (map observation_of table_fixed) (tl beta_fixed))"
      by (rule cross_shapes)
    show "shape 6 6 inverse_steep_reduced" by (simp add: shape_def inverse_steep_reduced_def)
    show "matmul 6 inverse_steep_reduced
        (cross_latent_fixed (map observation_of table_fixed) (tl beta_fixed)) = identity 6"
      unfolding cross_latent_fixed_def obs_fixed fixed_latent_fixed
      by (simp add: inverse_steep_reduced_def div_X_def scale_rows_def smul_def transpose_m_def col_def
          matmul_def dot_def identity_def unit_vec_def upt_conv_Cons)
  qed
  then show ?thesis
    unfolding gauss_newton_fixed_step_def obs_fixed fixed_latent_fixed
    by (simp add: inverse_steep_reduced_def div_X_def mat_vec_def transpose_m_def col_def dot_def
        upt_conv_Cons eval_nat_numeral)
qed

lemma fixed_run:
  "run_of (gauss_newton_fixed (map observation_of table_fixed))
     (\<lambda>j. case j of 0 \<Rightarrow> tl beta_fixed | Suc i \<Rightarrow> tl beta_fixed) 0"
proof (rule run_of_single)
  show "gauss_newton_fixed (map observation_of table_fixed) (tl beta_fixed) = Inr (tl beta_fixed)"
    by (simp add: gauss_newton_fixed_def fixed_fixed_step)
      (simp add: beta_fixed_def vadd_def eval_nat_numeral)
  show "max_change (tl beta_fixed) (tl beta_fixed) \<le> 1/10000"
    by (simp add: max_change_def beta_fixed_def)
qed

text \<open>
  C5. When the first loop returns a vector whose first coefficient exceeds 0.99, the
  non-linear estimator returns \<open>vb\<close> exactly when \<open>vb\<close> is 0.99 followed by a vector
  reached from the linear coefficients after the first by repeating the update over
  \<open>X' = [characteristics | 1]\<close> with the latent values
  \<open>weight \<odot> exp(-0.99 log_market_value - X' \<beta>)\<close>, each update but the last changing some
  coefficient by more than \<open>1e-4\<close> and the last changing none by more; the returned
  vector has length 7.
\<close>

theorem constrained_restart:
  assumes "table mdata" and "length \<beta> = 7"
    and "nonlinear_unconstrained mdata (column \<beta>) = Some (Inr vb0)"
    and "first_gt vb0 (99/100) = Inr True"
  shows "(\<forall>vb. vb_nonlinearIV mdata (column \<beta>) = Some (Inr vb) \<longleftrightarrow>
            (\<exists>n b. b 0 = tl \<beta> \<and> vb = column (99/100 # b (Suc n)) \<and>
                   run_of (gauss_newton_fixed (map observation_of mdata)) b n)) \<and>
         (\<forall>vb. vb_nonlinearIV mdata (column \<beta>) = Some (Inr vb) \<longrightarrow> length vb = 7)"
proof -
  have eq: "vb_nonlinearIV mdata (column \<beta>) = nonlinear_constrained mdata (column \<beta>)"
    using assms(3,4) by (simp add: vb_nonlinearIV_def)
  have iff: "vb_nonlinearIV mdata (column \<beta>) = Some (Inr vb) \<longleftrightarrow>
            (\<exists>n b. b 0 = tl \<beta> \<and> vb = column (99/100 # b (Suc n)) \<and>
                   run_of (gauss_newton_fixed (map observation_of mdata)) b n)" for vb
    unfolding eq by (rule nonlinear_constrained_run [OF assms(1,2)])
  have "length vb = 7" if "vb_nonlinearIV mdata (column \<beta>) = Some (Inr vb)" for vb
  proof -
    from that iff obtain n b where b: "b 0 = tl \<beta>" "vb = column (99/100 # b (Suc n))"
      "run_of (gauss_newton_fixed (map observation_of mdata)) b n" by blast
    have "length (b (Suc n)) = 6"
      by (rule run_of_length [OF b(3)]) (use b assms(2) gauss_newton_fixed_length in auto)
    then show ?thesis using b by simp
  qed
  with iff show ?thesis by blast
qed

theorem constrained_restart_witness:
  "nonlinear_unconstrained table_fixed (column beta_fixed) = Some (Inr (column beta_fixed)) \<and>
   first_gt (column beta_fixed) (99/100) = Inr True \<and>
   vb_nonlinearIV table_fixed (column beta_fixed) = Some (Inr (column (99/100 # tl beta_fixed))) \<and>
   length (column (99/100 # tl beta_fixed)) = 7"
proof -
  have l: "length beta_fixed = 7" by (simp add: beta_fixed_def)
  have g: "first_gt (column beta_fixed) (99/100) = Inr True"
    by (simp add: first_gt_column beta_fixed_def)
  note c = constrained_restart [OF table_table_fixed l nonlinear_unconstrained_table_fixed g]
  have "\<exists>n b. b 0 = tl beta_fixed \<and> column (99/100 # tl beta_fixed) = column (99/100 # b (Suc n)) \<and>
                   run_of (gauss_newton_fixed (map observation_of table_fixed)) b n"
    using fixed_run
    by (intro exI [of _ 0] exI [of _ "\<lambda>j. case j of 0 \<Rightarrow> tl beta_fixed | Suc i \<Rightarrow> tl beta_fixed"]) simp
  with c have r: "vb_nonlinearIV table_fixed (column beta_fixed) = Some (Inr (column (99/100 # tl beta_fixed)))"
    by blast
  with c have "length (column (99/100 # tl beta_fixed)) = 7" by blast
  with r g nonlinear_unconstrained_table_fixed show ?thesis by simp
qed

section \<open>The linear coefficients after the fourth cell\<close>

subsection \<open>A pass allocates and never overwrites\<close>

lemma extends_refl: "extends s s"
  by (simp add: extends_def)

lemma extends_trans: "extends s s' \<Longrightarrow> extends s' s'' \<Longrightarrow> extends s s''"
proof -
  assume a: "extends s s'" and b: "extends s' s''"
  have "take (length (arrays s)) (arrays s'') = take (length (arrays s)) (take (length (arrays s')) (arrays s''))"
    using a by (simp add: extends_def min_def)
  also have "\<dots> = arrays s" using a b by (simp add: extends_def)
  finally show ?thesis using a b by (simp add: extends_def)
qed

lemma extends_deref:
  assumes "extends s s'" and "buffer r < length (arrays s)"
  shows "deref (arrays s') r = deref (arrays s) r"
proof -
  from assms have "arrays s ! buffer r = take (length (arrays s)) (arrays s') ! buffer r"
    by (simp add: extends_def)
  also have "\<dots> = arrays s' ! buffer r" using assms(2) by simp
  finally show ?thesis by (simp add: deref_def)
qed

lemma pass_cases:
  assumes "allocated s"
  shows "pass update s =
     (case update (bound_value s) of
        Inl e \<Rightarrow> Inl (e, s)
      | Inr vb_new \<Rightarrow>
          (case amax (mabs (msub (bound_value s) vb_new)) of
             Inl e \<Rightarrow> Inl (e, s\<lparr>arrays := arrays s @ [vb_new]\<rparr>)
           | Inr d \<Rightarrow> Inr (s\<lparr>arrays := arrays s @ [vb_new], var_dchange := d,
                              var_vb_nonlinearIV := \<lparr>buffer = length (arrays s), start = 0\<rparr>\<rparr>)))"
proof -
  have a: "(arrays s @ [v]) ! buffer (var_vb_nonlinearIV s) = arrays s ! buffer (var_vb_nonlinearIV s)" for v
    using assms by (simp add: allocated_def nth_append)
  show ?thesis
    unfolding pass_def bound_value_def deref_def Let_def
    by (simp add: a cong: sum.case_cong)
qed

lemma pass_extends:
  assumes "allocated s"
  shows "extends s (final (case pass update s of Inl x \<Rightarrow> Inl x | Inr s' \<Rightarrow> Inr s'))"
  unfolding pass_cases [OF assms]
  by (simp add: final_def extends_def split: sum.splits)

lemma pass_allocated:
  assumes "allocated s" and "pass update s = Inr s'"
  shows "allocated s'"
  using assms(2) assms(1) unfolding pass_cases [OF assms(1)]
  by (auto simp add: allocated_def split: sum.splits)

lemma pass_Inr_extends:
  assumes "allocated s" and "pass update s = Inr s'"
  shows "extends s s'"
  using pass_extends [OF assms(1), of update] assms(2) by (simp add: final_def)

lemma pass_Inl_extends:
  assumes "allocated s" and "pass update s = Inl (e, s')"
  shows "extends s s'"
  using pass_extends [OF assms(1), of update] assms(2) by (simp add: final_def)


lemma run_loop_extends:
  assumes run: "run_loop update s = Some out" and al: "allocated s"
  shows "extends s (final out) \<and> (\<forall>s'. out = Inr s' \<longrightarrow> allocated s')"
proof -
  let ?P = "\<lambda>(u :: mat \<Rightarrow> error + mat) s out. allocated s \<longrightarrow>
              extends s (final out) \<and> (\<forall>s'. out = Inr s' \<longrightarrow> allocated s')"
  have "?P update s out"
  proof (rule run_loop.raw_induct [where P = ?P, OF _ run], intro impI)
    fix rl and u :: "mat \<Rightarrow> error + mat" and s out
    assume IH: "\<And>u s out. rl u s = Some out \<Longrightarrow> ?P u s out"
      and body: "(if 1/10000 < var_dchange s then
                    (case pass u s of Inl x \<Rightarrow> Some (Inl x) | Inr s' \<Rightarrow> rl u s')
                  else Some (Inr s)) = Some out"
      and al: "allocated s"
    show "extends s (final out) \<and> (\<forall>s'. out = Inr s' \<longrightarrow> allocated s')"
    proof (cases "1/10000 < var_dchange s")
      case False
      with body al show ?thesis by (auto simp add: final_def extends_refl)
    next
      case True
      show ?thesis
      proof (cases "pass u s")
        case (Inl x)
        obtain e s' where x: "x = (e, s')" by (cases x)
        from True body Inl have "out = Inl x" by simp
        with pass_Inl_extends [OF al Inl [unfolded x]] x show ?thesis by (simp add: final_def)
      next
        case (Inr s')
        from True body Inr have rec: "rl u s' = Some out" by simp
        from IH [OF rec] pass_allocated [OF al Inr]
        have "extends s' (final out)" "\<forall>t. out = Inr t \<longrightarrow> allocated t" by auto
        with extends_trans [OF pass_Inr_extends [OF al Inr]] show ?thesis by blast
      qed
    qed
  qed
  with al show ?thesis by simp
qed

subsection \<open>The loop over the store computes what the loop over values computes\<close>

lemma run_loop_forward:
  assumes run: "run_loop update s = Some out" and al: "allocated s"
  shows "iterate update (var_dchange s) (bound_value s) = Some (outcome out)"
proof -
  let ?P = "\<lambda>(u :: mat \<Rightarrow> error + mat) s out. allocated s \<longrightarrow>
              iterate u (var_dchange s) (bound_value s) = Some (outcome out)"
  have "?P update s out"
  proof (rule run_loop.raw_induct [where P = ?P, OF _ run], intro impI)
    fix rl and u :: "mat \<Rightarrow> error + mat" and s out
    assume IH: "\<And>u s out. rl u s = Some out \<Longrightarrow> ?P u s out"
      and body: "(if 1/10000 < var_dchange s then
                    (case pass u s of Inl x \<Rightarrow> Some (Inl x) | Inr s' \<Rightarrow> rl u s')
                  else Some (Inr s)) = Some out"
      and al: "allocated s"
    show "iterate u (var_dchange s) (bound_value s) = Some (outcome out)"
    proof (cases "1/10000 < var_dchange s")
      case False
      with body show ?thesis by (subst iterate.simps) (auto simp add: outcome_def)
    next
      case True
      show ?thesis
      proof (cases "u (bound_value s)")
        case (Inl e)
        with True body show ?thesis
          by (subst iterate.simps) (auto simp add: pass_cases [OF al] outcome_def)
      next
        case upd: (Inr vb_new)
        show ?thesis
        proof (cases "amax (mabs (msub (bound_value s) vb_new))")
          case (Inl e)
          with True body upd show ?thesis
            by (subst iterate.simps) (auto simp add: pass_cases [OF al] outcome_def)
        next
          case (Inr d)
          let ?s' = "s\<lparr>arrays := arrays s @ [vb_new], var_dchange := d,
                       var_vb_nonlinearIV := \<lparr>buffer = length (arrays s), start = 0\<rparr>\<rparr>"
          have p: "pass u s = Inr ?s'" by (simp add: pass_cases [OF al] upd Inr)
          from True body p have rec: "rl u ?s' = Some out" by simp
          have "iterate u (var_dchange ?s') (bound_value ?s') = Some (outcome out)"
            using IH [OF rec] pass_allocated [OF al p] by simp
          moreover have "bound_value ?s' = vb_new" by (simp add: bound_value_def deref_def)
          ultimately show ?thesis using True upd Inr
            by (subst iterate.simps) simp
        qed
      qed
    qed
  qed
  with al show ?thesis by simp
qed

lemma run_loop_backward:
  assumes run: "iterate update d vb = Some y"
  shows "\<forall>s. allocated s \<and> var_dchange s = d \<and> bound_value s = vb \<longrightarrow>
           (\<exists>out. run_loop update s = Some out \<and> outcome out = y)"
proof -
  let ?P = "\<lambda>(u :: mat \<Rightarrow> error + mat) d vb y.
       \<forall>s. allocated s \<and> var_dchange s = d \<and> bound_value s = vb \<longrightarrow>
           (\<exists>out. run_loop u s = Some out \<and> outcome out = y)"
  show "?P update d vb y"
  proof (rule iterate.raw_induct [where P = ?P, OF _ run], intro impI allI)
    fix it and u :: "mat \<Rightarrow> error + mat" and d :: real and vb y s
    assume IH: "\<And>u d vb y. it u d vb = Some y \<Longrightarrow> ?P u d vb y"
      and body: "(if 1/10000 < d then
                    (case u vb of Inl e \<Rightarrow> Some (Inl e)
                     | Inr vb_new \<Rightarrow> (case amax (mabs (msub vb vb_new)) of Inl e \<Rightarrow> Some (Inl e)
                                      | Inr d \<Rightarrow> it u d vb_new))
                  else Some (Inr vb)) = Some y"
      and s: "allocated s \<and> var_dchange s = d \<and> bound_value s = vb"
    from s have al: "allocated s" by simp
    show "\<exists>out. run_loop u s = Some out \<and> outcome out = y"
    proof (cases "1/10000 < d")
      case False
      with body s show ?thesis by (subst run_loop.simps) (auto simp add: outcome_def)
    next
      case True
      show ?thesis
      proof (cases "u vb")
        case (Inl e)
        with True body s show ?thesis
          by (subst run_loop.simps) (auto simp add: pass_cases [OF al] outcome_def)
      next
        case upd: (Inr vb_new)
        show ?thesis
        proof (cases "amax (mabs (msub vb vb_new))")
          case (Inl e)
          with True body upd s show ?thesis
            by (subst run_loop.simps) (auto simp add: pass_cases [OF al] outcome_def)
        next
          case (Inr d')
          let ?s' = "s\<lparr>arrays := arrays s @ [vb_new], var_dchange := d',
                       var_vb_nonlinearIV := \<lparr>buffer = length (arrays s), start = 0\<rparr>\<rparr>"
          have p: "pass u s = Inr ?s'" using s by (simp add: pass_cases [OF al] upd Inr)
          from True body upd Inr have rec: "it u d' vb_new = Some y" by simp
          have "bound_value ?s' = vb_new" by (simp add: bound_value_def deref_def)
          with IH [OF rec] pass_allocated [OF al p]
          obtain out where "run_loop u ?s' = Some out" "outcome out = y" by auto
          with True s p show ?thesis by (subst run_loop.simps) simp
        qed
      qed
    qed
  qed
qed

lemma run_loop_iterate:
  assumes "allocated s"
  shows "map_option outcome (run_loop update s) = iterate update (var_dchange s) (bound_value s)"
proof (cases "run_loop update s")
  case (Some out)
  with run_loop_forward [OF Some assms] show ?thesis by simp
next
  case None
  have "iterate update (var_dchange s) (bound_value s) = None"
  proof (cases "iterate update (var_dchange s) (bound_value s)")
    case (Some y)
    from run_loop_backward [OF Some] assms None show ?thesis by auto
  qed simp
  with None show ?thesis by simp
qed

subsection \<open>The cell\<close>

lemma extends_nth:
  assumes "extends s s'" and "i < length (arrays s)"
  shows "arrays s' ! i = arrays s ! i"
proof -
  from assms have "arrays s ! i = take (length (arrays s)) (arrays s') ! i"
    by (simp add: extends_def)
  also have "\<dots> = arrays s' ! i" using assms(2) by simp
  finally show ?thesis by simp
qed

lemma cell_nonlinearIV_extends:
  assumes lin: "buffer lin < length h" and run: "cell_nonlinearIV mdata h lin = Some out"
  shows "extends \<lparr>arrays = h, var_vb_linearIV = lin, var_vb_nonlinearIV = lin, var_dchange = 1\<rparr> (final out)"
proof -
  let ?s0 = "\<lparr>arrays = h, var_vb_linearIV = lin, var_vb_nonlinearIV = lin, var_dchange = 1\<rparr>"
  let ?U = "update_unconstrained 7 (design_X mdata) (design_Z mdata) (vrweight mdata)"
  let ?C = "update_constrained 6 (design_X_reduced mdata) (cols 8 9 mdata) (vrweight mdata)"
  have al0: "allocated ?s0" using lin by (simp add: allocated_def)
  from run obtain out1 where r1: "run_loop ?U ?s0 = Some out1"
    by (cases "run_loop ?U ?s0") (simp_all add: cell_nonlinearIV_def)
  note e1 = run_loop_extends [OF r1 al0]
  show ?thesis
  proof (cases out1)
    case (Inl x)
    with run r1 have "out = out1" by (simp add: cell_nonlinearIV_def)
    with e1 show ?thesis by simp
  next
    case (Inr s)
    from e1 Inr have es: "extends ?s0 s" and als: "allocated s" by (simp_all add: final_def)
    show ?thesis
    proof (cases "first_gt (deref (arrays s) (var_vb_nonlinearIV s)) (99/100)")
      case (Inl e)
      with run r1 Inr have "out = Inl (e, s)" by (simp add: cell_nonlinearIV_def)
      with es show ?thesis by (simp add: final_def)
    next
      case test: (Inr b)
      show ?thesis
      proof (cases b)
        case False
        with run r1 Inr test have "out = Inr s" by (simp add: cell_nonlinearIV_def)
        with es show ?thesis by (simp add: final_def)
      next
        case True
        let ?s3 = "s\<lparr>var_vb_nonlinearIV := \<lparr>buffer = buffer (var_vb_linearIV s),
                                               start = start (var_vb_linearIV s) + 1\<rparr>,
                       var_dchange := 1\<rparr>"
        have al3: "allocated ?s3" using als by (simp add: allocated_def)
        have e3: "extends ?s0 ?s3" using es by (simp add: extends_def)
        from run r1 Inr test True obtain out2 where r2: "run_loop ?C ?s3 = Some out2"
          by (cases "run_loop ?C ?s3") (simp_all add: cell_nonlinearIV_def)
        note e2 = run_loop_extends [OF r2 al3]
        show ?thesis
        proof (cases out2)
          case (Inl x)
          with run r1 r2 Inr test True have "out = out2" by (simp add: cell_nonlinearIV_def)
          with e2 e3 show ?thesis by (blast intro: extends_trans)
        next
          case s': (Inr s')
          let ?s4 = "s'\<lparr>arrays := arrays s' @ [[[99/100]] @ deref (arrays s') (var_vb_nonlinearIV s')],
                         var_vb_nonlinearIV := \<lparr>buffer = length (arrays s'), start = 0\<rparr>\<rparr>"
          from run r1 r2 Inr test True s' have o: "out = Inr ?s4" by (simp add: cell_nonlinearIV_def)
          have "extends s' ?s4" by (simp add: extends_def)
          moreover from e2 s' have "extends ?s3 s'" by (simp add: final_def)
          ultimately have "extends ?s0 ?s4" using e3 by (blast intro: extends_trans)
          with o show ?thesis by (simp add: final_def)
        qed
      qed
    qed
  qed
qed

lemma cell_nonlinearIV_refines:
  assumes lin: "buffer lin < length h"
  shows "map_option outcome (cell_nonlinearIV mdata h lin) = vb_nonlinearIV mdata (deref h lin)"
proof -
  let ?s0 = "\<lparr>arrays = h, var_vb_linearIV = lin, var_vb_nonlinearIV = lin, var_dchange = 1\<rparr>"
  let ?U = "update_unconstrained 7 (design_X mdata) (design_Z mdata) (vrweight mdata)"
  let ?C = "update_constrained 6 (design_X_reduced mdata) (cols 8 9 mdata) (vrweight mdata)"
  have al0: "allocated ?s0" using lin by (simp add: allocated_def)
  have it1: "map_option outcome (run_loop ?U ?s0) = nonlinear_unconstrained mdata (deref h lin)"
    using run_loop_iterate [OF al0, of ?U] by (simp add: nonlinear_unconstrained_def bound_value_def)
  show ?thesis
  proof (cases "run_loop ?U ?s0")
    case None
    with it1 show ?thesis by (simp add: cell_nonlinearIV_def vb_nonlinearIV_def)
  next
    case (Some out1)
    note e1 = run_loop_extends [OF Some al0]
    show ?thesis
    proof (cases out1)
      case (Inl x)
      obtain e t where x: "x = (e, t)" by (cases x)
      from it1 Some Inl x have "nonlinear_unconstrained mdata (deref h lin) = Some (Inl e)"
        by (simp add: outcome_def)
      with Some Inl x show ?thesis by (simp add: cell_nonlinearIV_def vb_nonlinearIV_def outcome_def)
    next
      case (Inr s)
      from e1 Inr have es: "extends ?s0 s" and als: "allocated s" by (simp_all add: final_def)
      from it1 Some Inr have nu: "nonlinear_unconstrained mdata (deref h lin) = Some (Inr (bound_value s))"
        by (simp add: outcome_def)
      show ?thesis
      proof (cases "first_gt (bound_value s) (99/100)")
        case (Inl e)
        with Some Inr nu show ?thesis
          by (simp add: cell_nonlinearIV_def vb_nonlinearIV_def outcome_def bound_value_def)
      next
        case test: (Inr b)
        show ?thesis
        proof (cases b)
          case False
          with Some Inr nu test show ?thesis
            by (simp add: cell_nonlinearIV_def vb_nonlinearIV_def outcome_def bound_value_def)
        next
          case True
          let ?s3 = "s\<lparr>var_vb_nonlinearIV := \<lparr>buffer = buffer (var_vb_linearIV s),
                                                 start = start (var_vb_linearIV s) + 1\<rparr>,
                         var_dchange := 1\<rparr>"
          have al3: "allocated ?s3" using als by (simp add: allocated_def)
          have "arrays s ! buffer lin = h ! buffer lin"
            using extends_nth [OF es, of "buffer lin"] lin by simp
          moreover have "var_vb_linearIV s = lin" using es by (simp add: extends_def)
          ultimately have bv: "bound_value ?s3 = drop 1 (deref h lin)"
            by (simp add: bound_value_def deref_def)
          have it2: "map_option outcome (run_loop ?C ?s3) = iterate ?C 1 (drop 1 (deref h lin))"
            using run_loop_iterate [OF al3, of ?C] bv by simp
          have vb: "vb_nonlinearIV mdata (deref h lin) = nonlinear_constrained mdata (deref h lin)"
            using nu test True by (simp add: vb_nonlinearIV_def)
          have cell: "cell_nonlinearIV mdata h lin =
              (case run_loop ?C ?s3 of None \<Rightarrow> None | Some (Inl x) \<Rightarrow> Some (Inl x)
               | Some (Inr s') \<Rightarrow>
                    Some (Inr (s'\<lparr>arrays := arrays s' @ [[[99/100]] @ deref (arrays s') (var_vb_nonlinearIV s')],
                                  var_vb_nonlinearIV := \<lparr>buffer = length (arrays s'), start = 0\<rparr>\<rparr>)))"
            using Some Inr test True by (simp add: cell_nonlinearIV_def bound_value_def)
          show ?thesis
          proof (cases "run_loop ?C ?s3")
            case None
            with it2 show ?thesis unfolding vb cell by (simp add: nonlinear_constrained_def)
          next
            case out2: (Some out2)
            show ?thesis
            proof (cases out2)
              case (Inl x)
              obtain e t where x: "x = (e, t)" by (cases x)
              from it2 out2 Inl x have "iterate ?C 1 (drop 1 (deref h lin)) = Some (Inl e)"
                by (simp add: outcome_def)
              with out2 Inl x show ?thesis unfolding vb cell
                by (simp add: nonlinear_constrained_def outcome_def)
            next
              case s': (Inr s')
              from it2 out2 s' have "iterate ?C 1 (drop 1 (deref h lin)) = Some (Inr (bound_value s'))"
                by (simp add: outcome_def)
              with out2 s' show ?thesis unfolding vb cell
                by (simp add: nonlinear_constrained_def outcome_def bound_value_def deref_def)
            qed
          qed
        qed
      qed
    qed
  qed
qed

subsection \<open>Two runs\<close>

lemma run_loop_single:
  assumes "allocated s" "1/10000 < var_dchange s" "update (bound_value s) = Inr vb_new"
    "amax (mabs (msub (bound_value s) vb_new)) = Inr d" "d \<le> 1/10000"
  shows "run_loop update s = Some (Inr (s\<lparr>arrays := arrays s @ [vb_new], var_dchange := d,
            var_vb_nonlinearIV := \<lparr>buffer = length (arrays s), start = 0\<rparr>\<rparr>))"
proof -
  let ?s' = "s\<lparr>arrays := arrays s @ [vb_new], var_dchange := d,
            var_vb_nonlinearIV := \<lparr>buffer = length (arrays s), start = 0\<rparr>\<rparr>"
  have p: "pass update s = Inr ?s'" by (simp add: pass_cases [OF assms(1)] assms(3,4))
  have "run_loop update ?s' = Some (Inr ?s')" using assms(5) by (subst run_loop.simps) simp
  then show ?thesis using assms(2) p by (subst run_loop.simps) simp
qed


lemma run_loop_fixed_point:
  assumes "allocated s" "1/10000 < var_dchange s" "bound_value s = column \<beta>" "\<beta> \<noteq> []"
    "update (column \<beta>) = Inr (column \<beta>)" "max_change \<beta> \<beta> \<le> 1/10000"
  shows "run_loop update s = Some (Inr (s\<lparr>arrays := arrays s @ [column \<beta>],
            var_dchange := max_change \<beta> \<beta>,
            var_vb_nonlinearIV := \<lparr>buffer = length (arrays s), start = 0\<rparr>\<rparr>))"
proof (rule run_loop_single [OF assms(1,2)])
  show "update (bound_value s) = Inr (column \<beta>)" using assms(3,5) by simp
  show "amax (mabs (msub (bound_value s) (column \<beta>))) = Inr (max_change \<beta> \<beta>)"
    unfolding assms(3) using assms(4) by (intro amax_change) simp_all
  show "max_change \<beta> \<beta> \<le> 1/10000" by (rule assms(6))
qed

lemma cell_linearIV_table_even:
  "cell_linearIV table_even = Inr ([vb_even], \<lparr>buffer = 0, start = 0\<rparr>)"
  by (simp add: cell_linearIV_def vb_linearIV_table_even)

lemma cell_nonlinearIV_table_even:
  "cell_nonlinearIV table_even [vb_even] \<lparr>buffer = 0, start = 0\<rparr> =
     Some (Inr \<lparr>arrays = [vb_even, vb_even], var_vb_linearIV = \<lparr>buffer = 0, start = 0\<rparr>,
                var_vb_nonlinearIV = \<lparr>buffer = 1, start = 0\<rparr>, var_dchange = 0\<rparr>)"
proof -
  let ?s0 = "\<lparr>arrays = [vb_even], var_vb_linearIV = \<lparr>buffer = 0, start = 0\<rparr>,
              var_vb_nonlinearIV = \<lparr>buffer = 0, start = 0\<rparr>, var_dchange = 1\<rparr>"
  let ?U = "update_unconstrained 7 (design_X table_even) (design_Z table_even) (vrweight table_even)"
  have z: "vadd beta_even (replicate 7 0) = beta_even"
    by (simp add: beta_even_def vadd_def eval_nat_numeral)
  have u: "?U (column beta_even) = Inr (column beta_even)"
    unfolding update_unconstrained_refines [OF table_table_even]
    by (simp add: gauss_newton_from_step(1) [OF even_step] z)
  have m: "max_change beta_even beta_even = 0" by (simp add: beta_even_def max_change_def)
  have "run_loop ?U ?s0 = Some (Inr (?s0\<lparr>arrays := arrays ?s0 @ [column beta_even],
            var_dchange := max_change beta_even beta_even,
            var_vb_nonlinearIV := \<lparr>buffer = length (arrays ?s0), start = 0\<rparr>\<rparr>))"
  proof (rule run_loop_fixed_point)
    show "allocated ?s0" by (simp add: allocated_def)
    show "1/10000 < var_dchange ?s0" by simp
    show "bound_value ?s0 = column beta_even" by (simp add: bound_value_def deref_def vb_even_beta)
    show "beta_even \<noteq> []" by (simp add: beta_even_def)
    show "?U (column beta_even) = Inr (column beta_even)" by (rule u)
    show "max_change beta_even beta_even \<le> 1/10000" by (simp add: m)
  qed
  then have "run_loop ?U ?s0 = Some (Inr \<lparr>arrays = [vb_even, vb_even],
          var_vb_linearIV = \<lparr>buffer = 0, start = 0\<rparr>,
          var_vb_nonlinearIV = \<lparr>buffer = 1, start = 0\<rparr>, var_dchange = 0\<rparr>)"
    by (simp add: m vb_even_beta)
  then show ?thesis
    by (simp add: cell_nonlinearIV_def deref_def vb_even_def first_gt_def)
qed

lemma cell_nonlinearIV_table_fixed:
  "cell_nonlinearIV table_fixed [column beta_fixed] \<lparr>buffer = 0, start = 0\<rparr> =
     Some (Inr \<lparr>arrays = [column beta_fixed, column beta_fixed, column (tl beta_fixed),
                          column (99/100 # tl beta_fixed)],
                var_vb_linearIV = \<lparr>buffer = 0, start = 0\<rparr>,
                var_vb_nonlinearIV = \<lparr>buffer = 3, start = 0\<rparr>, var_dchange = 0\<rparr>)"
proof -
  let ?s0 = "\<lparr>arrays = [column beta_fixed], var_vb_linearIV = \<lparr>buffer = 0, start = 0\<rparr>,
              var_vb_nonlinearIV = \<lparr>buffer = 0, start = 0\<rparr>, var_dchange = 1\<rparr>"
  let ?s1 = "\<lparr>arrays = [column beta_fixed, column beta_fixed],
              var_vb_linearIV = \<lparr>buffer = 0, start = 0\<rparr>,
              var_vb_nonlinearIV = \<lparr>buffer = 1, start = 0\<rparr>, var_dchange = 0\<rparr>"
  let ?s3 = "\<lparr>arrays = [column beta_fixed, column beta_fixed],
              var_vb_linearIV = \<lparr>buffer = 0, start = 0\<rparr>,
              var_vb_nonlinearIV = \<lparr>buffer = 0, start = Suc 0\<rparr>, var_dchange = 1\<rparr>"
  let ?s4 = "\<lparr>arrays = [column beta_fixed, column beta_fixed, column (tl beta_fixed)],
              var_vb_linearIV = \<lparr>buffer = 0, start = 0\<rparr>,
              var_vb_nonlinearIV = \<lparr>buffer = 2, start = 0\<rparr>, var_dchange = 0\<rparr>"
  let ?U = "update_unconstrained 7 (design_X table_fixed) (design_Z table_fixed) (vrweight table_fixed)"
  let ?C = "update_constrained 6 (design_X_reduced table_fixed) (cols 8 9 table_fixed) (vrweight table_fixed)"
  have z: "vadd beta_fixed (replicate 7 0) = beta_fixed"
    "vadd (tl beta_fixed) (replicate 6 0) = tl beta_fixed"
    by (simp_all add: beta_fixed_def vadd_def eval_nat_numeral)
  have u: "?U (column beta_fixed) = Inr (column beta_fixed)"
    unfolding update_unconstrained_refines [OF table_table_fixed]
    by (simp add: gauss_newton_from_step(1) [OF fixed_step] z)
  have c: "?C (column (tl beta_fixed)) = Inr (column (tl beta_fixed))"
    unfolding update_constrained_refines [OF table_table_fixed]
    by (simp add: gauss_newton_fixed_def fixed_fixed_step z)
  have m: "max_change beta_fixed beta_fixed = 0" "max_change (tl beta_fixed) (tl beta_fixed) = 0"
    by (simp_all add: beta_fixed_def max_change_def)
  have "run_loop ?U ?s0 = Some (Inr (?s0\<lparr>arrays := arrays ?s0 @ [column beta_fixed],
            var_dchange := max_change beta_fixed beta_fixed,
            var_vb_nonlinearIV := \<lparr>buffer = length (arrays ?s0), start = 0\<rparr>\<rparr>))"
  proof (rule run_loop_fixed_point)
    show "allocated ?s0" by (simp add: allocated_def)
    show "1/10000 < var_dchange ?s0" by simp
    show "bound_value ?s0 = column beta_fixed" by (simp add: bound_value_def deref_def)
    show "beta_fixed \<noteq> []" by (simp add: beta_fixed_def)
    show "?U (column beta_fixed) = Inr (column beta_fixed)" by (rule u)
    show "max_change beta_fixed beta_fixed \<le> 1/10000" by (simp add: m)
  qed
  then have 1: "run_loop ?U ?s0 = Some (Inr ?s1)" by (simp add: m)
  have "run_loop ?C ?s3 = Some (Inr (?s3\<lparr>arrays := arrays ?s3 @ [column (tl beta_fixed)],
            var_dchange := max_change (tl beta_fixed) (tl beta_fixed),
            var_vb_nonlinearIV := \<lparr>buffer = length (arrays ?s3), start = 0\<rparr>\<rparr>))"
  proof (rule run_loop_fixed_point)
    show "allocated ?s3" by (simp add: allocated_def)
    show "1/10000 < var_dchange ?s3" by simp
    show "bound_value ?s3 = column (tl beta_fixed)"
      by (simp add: bound_value_def deref_def drop_column drop_Suc)
    show "tl beta_fixed \<noteq> []" by (simp add: beta_fixed_def)
    show "?C (column (tl beta_fixed)) = Inr (column (tl beta_fixed))" by (rule c)
    show "max_change (tl beta_fixed) (tl beta_fixed) \<le> 1/10000" by (simp add: m)
  qed
  then have 2: "run_loop ?C ?s3 = Some (Inr ?s4)" by (simp add: m)
  have g: "first_gt (column beta_fixed) (99/100) = Inr True"
    by (simp add: first_gt_column beta_fixed_def)
  show ?thesis
    unfolding cell_nonlinearIV_def 1
    by (simp add: deref_def g 2 column_Cons)
qed

text \<open>
  C9. When the fourth cell starts with the name \<open>vb_linearIV\<close> bound to an allocated
  array and then returns or raises, the name is still bound to the same array object,
  the rows it denotes are the rows it denoted when the cell started, and every array
  that existed when the cell started is unchanged; so if the cell started in the state
  the third cell leaves, \<open>vb_linearIV\<close> still holds the vector the linear estimator
  produced. This covers the alias \<open>vb_nonlinearIV = vb_linearIV\<close> and the view
  \<open>vb_linearIV[1:]\<close> that seeds the second loop.
\<close>

theorem linear_vector_unchanged:
  assumes "buffer lin < length h" and "cell_nonlinearIV mdata h lin = Some out"
  shows "var_vb_linearIV (final out) = lin \<and>
         deref (arrays (final out)) (var_vb_linearIV (final out)) = deref h lin \<and>
         take (length h) (arrays (final out)) = h \<and>
         (cell_linearIV mdata = Inr (h, lin) \<longrightarrow>
            vb_linearIV mdata = Inr (deref (arrays (final out)) (var_vb_linearIV (final out))))"
proof -
  let ?s0 = "\<lparr>arrays = h, var_vb_linearIV = lin, var_vb_nonlinearIV = lin, var_dchange = 1\<rparr>"
  note e = cell_nonlinearIV_extends [OF assms]
  from e have 1: "var_vb_linearIV (final out) = lin" and 3: "take (length h) (arrays (final out)) = h"
    by (simp_all add: extends_def)
  from extends_deref [OF e, of lin] assms(1) 1
  have 2: "deref (arrays (final out)) (var_vb_linearIV (final out)) = deref h lin" by simp
  have "vb_linearIV mdata = Inr (deref h lin)" if "cell_linearIV mdata = Inr (h, lin)"
    using that by (auto simp add: cell_linearIV_def deref_def split: sum.splits)
  with 1 2 3 show ?thesis by simp
qed

theorem linear_vector_unchanged_witness:
  "cell_linearIV table_even = Inr ([vb_even], \<lparr>buffer = 0, start = 0\<rparr>) \<and>
   cell_nonlinearIV table_even [vb_even] \<lparr>buffer = 0, start = 0\<rparr> =
     Some (Inr \<lparr>arrays = [vb_even, vb_even], var_vb_linearIV = \<lparr>buffer = 0, start = 0\<rparr>,
                var_vb_nonlinearIV = \<lparr>buffer = 1, start = 0\<rparr>, var_dchange = 0\<rparr>) \<and>
   vb_linearIV table_even = Inr (deref [vb_even, vb_even] \<lparr>buffer = 0, start = 0\<rparr>) \<and>
   cell_nonlinearIV table_fixed [column beta_fixed] \<lparr>buffer = 0, start = 0\<rparr> =
     Some (Inr \<lparr>arrays = [column beta_fixed, column beta_fixed, column (tl beta_fixed),
                          column (99/100 # tl beta_fixed)],
                var_vb_linearIV = \<lparr>buffer = 0, start = 0\<rparr>,
                var_vb_nonlinearIV = \<lparr>buffer = 3, start = 0\<rparr>, var_dchange = 0\<rparr>) \<and>
   deref [column beta_fixed, column beta_fixed, column (tl beta_fixed),
          column (99/100 # tl beta_fixed)] \<lparr>buffer = 0, start = 0\<rparr> =
     deref [column beta_fixed] \<lparr>buffer = 0, start = 0\<rparr>"
proof -
  have b: "buffer \<lparr>buffer = 0, start = 0\<rparr> < length [vb_even]"
    "buffer \<lparr>buffer = 0, start = 0\<rparr> < length [column beta_fixed]" by simp_all
  note even = linear_vector_unchanged [OF b(1) cell_nonlinearIV_table_even]
  note fixed = linear_vector_unchanged [OF b(2) cell_nonlinearIV_table_fixed]
  from even cell_linearIV_table_even
  have "vb_linearIV table_even = Inr (deref [vb_even, vb_even] \<lparr>buffer = 0, start = 0\<rparr>)"
    by (simp add: final_def)
  moreover from fixed
  have "deref [column beta_fixed, column beta_fixed, column (tl beta_fixed),
          column (99/100 # tl beta_fixed)] \<lparr>buffer = 0, start = 0\<rparr> =
     deref [column beta_fixed] \<lparr>buffer = 0, start = 0\<rparr>"
    by (simp add: final_def)
  ultimately show ?thesis
    using cell_linearIV_table_even cell_nonlinearIV_table_even cell_nonlinearIV_table_fixed
    by simp
qed

section \<open>The stability bound over floating-point values\<close>

subsection \<open>Finite results\<close>

lemma fl_0 [simp]: "fl 0 = Fin 0"
  by (simp add: fl_def)

lemma fl_mid: "1 / 2 ^ 64 \<le> \<bar>r\<bar> \<Longrightarrow> \<bar>r\<bar> \<le> 2 ^ 64 \<Longrightarrow> fl r = Fin r"
proof -
  assume a: "1 / 2 ^ 64 \<le> \<bar>r\<bar>" and b: "\<bar>r\<bar> \<le> 2 ^ 64"
  have "(2::real) ^ 64 < 2 ^ 1024" by (rule power_strict_increasing) simp_all
  moreover have "(1::real) / 2 ^ 1075 < 1 / 2 ^ 64"
    by (simp add: field_simps) 
  ultimately show ?thesis using a b unfolding fl_def by (auto simp del: power_strict_increasing_iff)
qed

subsection \<open>The linear estimate of the overflow table\<close>

lemmas fp_array_defs = fp_dot_def fp_col_def fp_transpose_def fp_matmul_def fp_madd_def fp_msub_def
  fp_emul_def fp_mscale_def fp_mneg_def fp_mexp_def fp_mlog_def fp_mabs_def fp_msub_scalar_def
  fp_ones_def fp_hcat_def fp_cols_def fp_amax_def fp_argwhere_pos_def fp_rows_at_def
  fp_first_gt_def fp_sub_def fp_max_def inf_of_sign_def

lemmas fp_inverse_defs = fp_linalg_inv_def fp_identity_def fp_eliminate_def

lemmas fp_design_defs = fp_vrweight_def fp_vloc_def fp_mdata0_def fp_vLNrweight_def fp_design_X_def
  fp_design_Z_def fp_design_X_reduced_def

lemma fp_mdata0_table_overflow: "fp_mdata0 table_overflow = take 7 table_overflow"
  by (simp add: fp_design_defs fp_array_defs table_overflow_def upt_conv_Cons)

lemma fp_vLNrweight_table_overflow:
  "fp_vLNrweight table_overflow = [[Fin (- 3)], [Fin (- 3)], [Fin (- 2)], [Fin (- 3)], [Fin (- 3)], [Fin (- 3)], [Fin (- 3)]]"
  by (simp add: fp_design_defs fp_array_defs table_overflow_def upt_conv_Cons fl_mid)

lemma fp_design_table_overflow:
  "fp_design_X (fp_mdata0 table_overflow) = overflow_X"
  "fp_design_Z (fp_mdata0 table_overflow) = overflow_X"
  unfolding fp_mdata0_table_overflow
  by (simp_all add: fp_design_defs fp_array_defs table_overflow_def overflow_X_def)

lemma overflow_cross:
  "fp_matmul 7 (fp_transpose 7 overflow_X) overflow_X =
     [[Fin 1, Fin 0, Fin 0, Fin 0, Fin 0, Fin 0, Fin 1],
      [Fin 0, Fin 1, Fin 0, Fin 0, Fin 0, Fin 0, Fin 1],
      [Fin 0, Fin 0, Fin 1, Fin 0, Fin 0, Fin 0, Fin 1],
      [Fin 0, Fin 0, Fin 0, Fin 1, Fin 0, Fin 0, Fin 1],
      [Fin 0, Fin 0, Fin 0, Fin 0, Fin 1, Fin 0, Fin 1],
      [Fin 0, Fin 0, Fin 0, Fin 0, Fin 0, Fin 1, Fin 1],
      [Fin 1, Fin 1, Fin 1, Fin 1, Fin 1, Fin 1, Fin 7]]"
  by (simp add: fp_array_defs overflow_X_def upt_conv_Cons fl_mid)


lemma overflow_linalg_inv:
  "fp_linalg_inv (fp_matmul 7 (fp_transpose 7 overflow_X) overflow_X) = Inr overflow_inverse"
  unfolding overflow_cross
  by (simp add: fp_inverse_defs fp_array_defs overflow_inverse_def upt_conv_Cons fl_mid Let_def)

lemma overflow_dT: "length (fp_cols 8 9 (fp_mdata0 table_overflow)) = 7"
  unfolding fp_mdata0_table_overflow by (simp add: fp_cols_def table_overflow_def)

lemma fp_vb_linearIV_unconstrained_table_overflow:
  "fp_vb_linearIV_unconstrained fp_linalg_inv table_overflow = Inr vb_overflow"
  unfolding fp_vb_linearIV_unconstrained_def fp_design_table_overflow
    overflow_linalg_inv fp_vLNrweight_table_overflow overflow_dT Let_def
  by (simp add: fp_array_defs overflow_inverse_def overflow_X_def vb_overflow_def upt_conv_Cons fl_mid)

lemma fp_vb_linearIV_table_overflow:
  "fp_vb_linearIV fp_linalg_inv table_overflow = Inr vb_overflow"
  unfolding fp_vb_linearIV_def fp_vb_linearIV_unconstrained_table_overflow
  by (simp add: fp_first_gt_def vb_overflow_def)


subsection \<open>A pass that overflows\<close>

lemma exp_one_ge_two: "(2::real) \<le> exp 1"
  using exp_ge_add_one_self [of "1::real"] by simp

lemma fl_exp_big:
  assumes "1024 \<le> x"
  shows "fl (exp x) = PInf"
proof -
  have "(2::real) ^ 1024 \<le> exp 1 ^ 1024" by (rule power_mono [OF exp_one_ge_two]) simp
  also have "\<dots> = exp (of_nat 1024 * 1)" by (rule exp_of_nat_mult [symmetric])
  also have "\<dots> \<le> exp x" using assms by simp
  finally show ?thesis by (simp add: fl_def)
qed

lemma fl_exp_mid:
  assumes "\<bar>x\<bar> \<le> 40"
  shows "fl (exp x) = Fin (exp x)"
proof (rule fl_mid)
  have e40: "exp (40::real) \<le> 3 ^ 40"
  proof -
    have "exp (40::real) = exp (of_nat 40 * 1)" by simp
    also have "\<dots> = exp 1 ^ 40" by (rule exp_of_nat_mult)
    also have "\<dots> \<le> 3 ^ 40" by (rule power_mono [OF exp_le]) simp
    finally show ?thesis .
  qed
  have p: "(3::real) ^ 40 \<le> 2 ^ 64" by simp
  have b: "exp y \<le> 2 ^ 64" if "y \<le> 40" for y :: real
  proof -
    have "exp y \<le> exp 40" using that by simp
    also note e40
    also note p
    finally show ?thesis .
  qed
  from b [of x] assms show "\<bar>exp x\<bar> \<le> 2 ^ 64" by simp
  from b [of "- x"] assms have "exp (- x) \<le> 2 ^ 64" by simp
  then have "1 / 2 ^ 64 \<le> 1 / exp (- x)"
    by (intro divide_left_mono) simp_all
  then show "1 / 2 ^ 64 \<le> \<bar>exp x\<bar>" by (simp add: exp_minus field_simps)
qed

lemma fp_design_table_overflow_all:
  "fp_design_X table_overflow = overflow_X8"
  "fp_design_Z table_overflow = overflow_X8"
  "fp_vrweight table_overflow =
     [[Fin (exp (- 3))], [Fin (exp (- 3))], [Fin (exp (- 2))], [Fin (exp (- 3))], [Fin (exp (- 3))],
      [Fin (exp (- 3))], [Fin (exp (- 3))], [Fin 0]]"
  by (simp_all add: fp_design_defs fp_array_defs table_overflow_def overflow_X8_def overflow_X_def)

lemma overflow_exponents:
  "fp_matmul 1 (fp_mneg overflow_X8) vb_overflow =
     [[Fin 3], [Fin 3], [Fin 2], [Fin 3], [Fin 3], [Fin 3], [Fin 3], [Fin 2003]]"
  by (simp add: fp_array_defs overflow_X8_def overflow_X_def vb_overflow_def fl_mid)

lemma overflow_vlatent:
  "fp_emul (fp_vrweight table_overflow) (fp_mexp (fp_matmul 1 (fp_mneg overflow_X8) vb_overflow)) =
     [[Fin 1], [Fin 1], [Fin 1], [Fin 1], [Fin 1], [Fin 1], [Fin 1], [NaN]]"
proof -
  have e: "exp (- 3) * exp (3::real) = 1" "exp (- 2) * exp (2::real) = 1"
    by (simp_all add: exp_minus)
  show ?thesis
    unfolding overflow_exponents fp_design_table_overflow_all
    by (simp add: fp_emul_def fp_mexp_def fl_exp_mid fl_exp_big e inf_of_sign_def fl_mid)
qed

lemma overflow_cross_latent:
  "fp_matmul 7 (fp_transpose 7 (fp_emul (fp_matmul 7
       [[Fin 1], [Fin 1], [Fin 1], [Fin 1], [Fin 1], [Fin 1], [Fin 1], [NaN]] (fp_ones 1 7)) overflow_X8))
     overflow_X8 = nan_matrix 7 7"
  by (simp add: fp_array_defs overflow_X8_def overflow_X_def nan_matrix_def upt_conv_Cons fl_mid
      eval_nat_numeral)

lemma fp_linalg_inv_nan: "fp_linalg_inv (nan_matrix 7 7) = Inr (nan_matrix 7 7)"
  by (simp add: fp_inverse_defs fp_array_defs nan_matrix_def upt_conv_Cons Let_def eval_nat_numeral)


lemma overflow_update:
  "fp_update_unconstrained fp_linalg_inv 7 overflow_X8 overflow_X8 (fp_vrweight table_overflow) vb_overflow
     = Inr (nan_matrix 7 1)"
  unfolding fp_update_unconstrained_def fp_increment_unconstrained_def Let_def overflow_vlatent
    overflow_cross_latent fp_linalg_inv_nan
  by (simp add: fp_array_defs overflow_X8_def overflow_X_def nan_matrix_def vb_overflow_def
      upt_conv_Cons eval_nat_numeral)

lemma fp_nonlinear_unconstrained_table_overflow:
  "fp_nonlinear_unconstrained fp_linalg_inv table_overflow vb_overflow = Some (Inr (nan_matrix 7 1))"
  unfolding fp_nonlinear_unconstrained_def fp_design_table_overflow_all(1,2)
  apply (subst fp_iterate.simps)
  apply (simp add: overflow_update)
  apply (subst fp_iterate.simps)
  apply (simp add: fp_array_defs nan_matrix_def vb_overflow_def eval_nat_numeral)
  done

lemma fp_vb_nonlinearIV_table_overflow:
  "fp_vb_nonlinearIV fp_linalg_inv table_overflow vb_overflow = Some (Inr (nan_matrix 7 1))"
  unfolding fp_vb_nonlinearIV_def fp_nonlinear_unconstrained_table_overflow
  by (simp add: fp_first_gt_def nan_matrix_def eval_nat_numeral)

subsection \<open>The first coefficient\<close>

lemma fp_first_gt_False:
  "fp_first_gt vb c = Inr False \<Longrightarrow> \<exists>x rest. vb = [x] # rest \<and> \<not> fp_gt x c"
  by (auto simp: fp_first_gt_def split: list.splits)

lemma not_fp_gt: "\<not> fp_gt x (Fin c) \<longleftrightarrow> x = NaN \<or> x = NInf \<or> (\<exists>r. x = Fin r \<and> r \<le> c)"
  by (cases x) auto

lemma fp_vb_linearIV_constrained_first:
  "fp_vb_linearIV_constrained linv mdata = Inr vb \<Longrightarrow> \<exists>rest. vb = [Fin (99/100)] # rest"
  by (auto simp: fp_vb_linearIV_constrained_def Let_def split: sum.splits)

lemma fp_nonlinear_constrained_first:
  "fp_nonlinear_constrained linv mdata vb_lin = Some (Inr vb) \<Longrightarrow> \<exists>rest. vb = [Fin (99/100)] # rest"
  by (auto simp: fp_nonlinear_constrained_def split: option.splits sum.splits)

text \<open>
  C1, as the code has it. Whenever the linear-IV estimator returns a coefficient vector,
  and whenever the non-linear-IV estimator returns one (from any starting vector, and
  whatever the inversion routine returns), the first element is not greater than 0.99:
  it is at most 0.99 (a finite number or \<open>-inf\<close>) or it is nan.
\<close>

theorem first_coefficient_not_above_ceiling:
  "(fp_vb_linearIV linv mdata = Inr vb \<longrightarrow>
      (\<exists>x rest. vb = [x] # rest \<and> (x = NaN \<or> x = NInf \<or> (\<exists>r. x = Fin r \<and> r \<le> 99/100)))) \<and>
   (fp_vb_nonlinearIV linv mdata vb_lin = Some (Inr vb') \<longrightarrow>
      (\<exists>x rest. vb' = [x] # rest \<and> (x = NaN \<or> x = NInf \<or> (\<exists>r. x = Fin r \<and> r \<le> 99/100))))"
proof -
  have ceiling: "Fin (99/100) = NaN \<or> Fin (99/100) = NInf \<or> (\<exists>r. Fin (99/100) = Fin r \<and> r \<le> 99/100)"
    by (intro disjI2 exI [of _ "99/100"]) simp
  show ?thesis
  proof (intro conjI impI)
  assume lin: "fp_vb_linearIV linv mdata = Inr vb"
  then obtain vb0 b where g: "fp_first_gt vb0 (Fin (99/100)) = Inr b"
    and r: "(if b then fp_vb_linearIV_constrained linv mdata else Inr vb0) = Inr vb"
    by (auto simp: fp_vb_linearIV_def split: sum.splits bool.splits)
  show "\<exists>x rest. vb = [x] # rest \<and> (x = NaN \<or> x = NInf \<or> (\<exists>r. x = Fin r \<and> r \<le> 99/100))"
  proof (cases b)
    case True
    with r fp_vb_linearIV_constrained_first [of linv mdata vb] obtain rest
      where "vb = [Fin (99/100)] # rest" by auto
    with ceiling show ?thesis by blast
  next
    case False
    with r g fp_first_gt_False [of vb0 "Fin (99/100)"] show ?thesis by (auto simp: not_fp_gt)
  qed
next
  assume nl: "fp_vb_nonlinearIV linv mdata vb_lin = Some (Inr vb')"
  then obtain vb0 b where g: "fp_first_gt vb0 (Fin (99/100)) = Inr b"
    and r: "(if b then fp_nonlinear_constrained linv mdata vb_lin else Some (Inr vb0)) = Some (Inr vb')"
    by (auto simp: fp_vb_nonlinearIV_def split: option.splits sum.splits bool.splits)
  show "\<exists>x rest. vb' = [x] # rest \<and> (x = NaN \<or> x = NInf \<or> (\<exists>r. x = Fin r \<and> r \<le> 99/100))"
  proof (cases b)
    case True
    with r fp_nonlinear_constrained_first [of linv mdata vb_lin vb'] obtain rest
      where "vb' = [Fin (99/100)] # rest" by auto
    with ceiling show ?thesis by blast
  next
    case False
    with r g fp_first_gt_False [of vb0 "Fin (99/100)"] show ?thesis by (auto simp: not_fp_gt)
  qed
  qed
qed

theorem first_coefficient_not_above_ceiling_witness:
  "fp_vb_linearIV fp_linalg_inv table_overflow = Inr vb_overflow \<and>
   fp_vb_nonlinearIV fp_linalg_inv table_overflow vb_overflow = Some (Inr (nan_matrix 7 1)) \<and>
   (\<exists>x rest. vb_overflow = [x] # rest \<and> (x = NaN \<or> x = NInf \<or> (\<exists>r. x = Fin r \<and> r \<le> 99/100))) \<and>
   (\<exists>x rest. nan_matrix 7 1 = [x] # rest \<and> (x = NaN \<or> x = NInf \<or> (\<exists>r. x = Fin r \<and> r \<le> 99/100)))"
  using first_coefficient_not_above_ceiling [of fp_linalg_inv table_overflow vb_overflow vb_overflow "nan_matrix 7 1"]
    fp_vb_linearIV_table_overflow fp_vb_nonlinearIV_table_overflow
  by simp

text \<open>
  On the overflow table the two estimators return: the linear estimate is
  \<open>[0, 1, 0, 0, 0, 0, -3]\<close>, the exponent of the row that is not held is 2003, its
  latent value is \<open>0 * inf\<close>, and the non-linear estimator leaves its loop after one pass
  with a vector of nan, whose first element is not at most 0.99.
\<close>

theorem nan_coefficient_counterexample:
  "fp_estimate fp_linalg_inv table_overflow =
     Some (Inr ([[Fin 0], [Fin 1], [Fin 0], [Fin 0], [Fin 0], [Fin 0], [Fin (- 3)]],
                [[NaN], [NaN], [NaN], [NaN], [NaN], [NaN], [NaN]]))"
  by (simp add: fp_estimate_def fp_vb_linearIV_table_overflow fp_vb_nonlinearIV_table_overflow)
    (simp add: vb_overflow_def nan_matrix_def eval_nat_numeral)

end
